theory Spec2Isabelle
  imports Complex_Main
begin

section \<open>Python strings\<close>

text \<open>
  A Python \<open>str\<close> is modelled as a \<open>string\<close>: a list of characters, each \<open>char\<close>
  standing for the code point of the same number (the Latin-1 range of Unicode, which
  contains every character the provider patterns are written in).
\<close>

definition backslash :: char where
  "backslash = CHR 0x5C"

definition LF :: char where
  "LF = CHR 0x0A"

text \<open>\<open>s.startswith(p)\<close>, \<open>s.endswith(p)\<close> and \<open>sub in s\<close>.\<close>

fun startswith :: "string \<Rightarrow> string \<Rightarrow> bool" where
  "startswith s [] = True"
| "startswith [] (p # ps) = False"
| "startswith (c # cs) (p # ps) = (c = p \<and> startswith cs ps)"

definition endswith :: "string \<Rightarrow> string \<Rightarrow> bool" where
  "endswith s p = startswith (rev s) (rev p)"

fun contains :: "string \<Rightarrow> string \<Rightarrow> bool" where
  "contains [] sub = (sub = [])"
| "contains (c # cs) sub = (startswith (c # cs) sub \<or> contains cs sub)"

text \<open>
  \<open>s.replace(old, new)\<close>: every occurrence of \<open>old\<close>, found from the left and not
  overlapping, is replaced. For an empty \<open>old\<close> Python puts \<open>new\<close> before every
  character and at the end.
\<close>

function str_replace :: "string \<Rightarrow> string \<Rightarrow> string \<Rightarrow> string" where
  "str_replace old new s =
     (if old = [] then new @ concat (map (\<lambda>c. c # new) s)
      else if s = [] then []
      else if startswith s old then new @ str_replace old new (drop (length old) s)
      else hd s # str_replace old new (tl s))"
  by pat_completeness auto
termination
  by (relation "measure (\<lambda>(old, new, s). length s)") auto

declare str_replace.simps [simp del]

text \<open>\<open>s.replace(old, new, 1)\<close>: only the first occurrence is replaced.\<close>

fun str_replace1 :: "string \<Rightarrow> string \<Rightarrow> string \<Rightarrow> string" where
  "str_replace1 old new [] = (if old = [] then new else [])"
| "str_replace1 old new (c # cs) =
     (if startswith (c # cs) old then new @ drop (length old) (c # cs)
      else c # str_replace1 old new cs)"

text \<open>\<open>sep.join(xs)\<close>.\<close>

fun join :: "string \<Rightarrow> string list \<Rightarrow> string" where
  "join sep [] = []"
| "join sep [x] = x"
| "join sep (x # y # ys) = x @ sep @ join sep (y # ys)"

text \<open>
  \<open>s[lo:hi]\<close>: a negative index counts from the end, and both indices are clamped to
  the string.
\<close>

definition py_slice :: "string \<Rightarrow> int \<Rightarrow> int \<Rightarrow> string" where
  "py_slice s lo hi =
     (let n = int (length s);
          clamp = (\<lambda>i. if i < 0 then max 0 (n + i) else min n i);
          a = nat (clamp lo);
          b = nat (clamp hi)
      in take (b - a) (drop a s))"

section \<open>strip_cdata\<close>

definition strip_cdata :: "string \<Rightarrow> string" where
  "strip_cdata html =
     (if startswith html ''<![CDATA['' \<and> endswith html '']]>''
      then py_slice html 9 (- 3)
      else html)"

section \<open>The regular expressions of Python's re module\<close>

text \<open>
  \<open>re.escape\<close> puts a backslash before each of the characters
  \<open>()[]{}?*+-|^$\.&~#\<close>, the space, and tab, line feed, carriage return, vertical tab
  and form feed; every other character is copied.
\<close>

definition special_chars :: "char list" where
  "special_chars =
     ''()[]{}?*+-|^$'' @ [backslash] @ ''.&~# '' @ [CHR 0x09, CHR 0x0A, CHR 0x0D, CHR 0x0B, CHR 0x0C]"

definition re_escape :: "string \<Rightarrow> string" where
  "re_escape s = concat (map (\<lambda>c. if c \<in> set special_chars then [backslash, c] else [c]) s)"

text \<open>
  The compiled form of a pattern. The model covers the part of the pattern language that
  \<open>scheme_to_regex\<close> writes: a literal character, an escaped character, \<open>.\<close>,
  \<open>*\<close> after a single-character item, \<open>$\<close>, the group \<open>(?:...)\<close> and the
  alternation \<open>|\<close>. A group is a list of branches, a branch a list of items.
\<close>

datatype atom = Lit char | Dot

datatype item = One atom | Star atom | Eol | Group "item list list"

text \<open>
  \<open>re.IGNORECASE\<close>, the only flag the program compiles with: two characters match when
  their lower-case forms agree. In the Latin-1 range the cased letters are \<open>A-Z\<close> and
  the code points 192 to 222 other than 215.
\<close>

definition lower_char :: "char \<Rightarrow> char" where
  "lower_char c =
     (let n = (of_char c :: nat)
      in if (65 \<le> n \<and> n \<le> 90) \<or> (192 \<le> n \<and> n \<le> 222 \<and> n \<noteq> 215) then char_of (n + 32) else c)"

definition ci_eq :: "char \<Rightarrow> char \<Rightarrow> bool" where
  "ci_eq a b = (lower_char a = lower_char b)"

text \<open>Without the flag DOTALL, \<open>.\<close> matches every character but the line feed.\<close>

fun m_atom :: "atom \<Rightarrow> char \<Rightarrow> bool" where
  "m_atom (Lit c) x = ci_eq c x"
| "m_atom Dot x = (x \<noteq> LF)"

text \<open>
  Matching returns the list of the remainders of the subject that a match can leave, in
  the order in which the backtracking matcher tries them: a starred item is greedy, so the
  shortest remainder comes first. \<open>$\<close> matches at the end of the subject and before a
  line feed that ends it.
\<close>

fun star_rem :: "atom \<Rightarrow> string \<Rightarrow> string list" where
  "star_rem a [] = [[]]"
| "star_rem a (x # xs) = (if m_atom a x then star_rem a xs @ [x # xs] else [x # xs])"

fun m_item :: "item \<Rightarrow> string \<Rightarrow> string list"
and m_seq :: "item list \<Rightarrow> string \<Rightarrow> string list" where
  "m_item (One a) s = (case s of [] \<Rightarrow> [] | x # xs \<Rightarrow> if m_atom a x then [xs] else [])"
| "m_item (Star a) s = star_rem a s"
| "m_item Eol s = (if s = [] \<or> s = [LF] then [s] else [])"
| "m_item (Group bs) s = concat (map (\<lambda>b. m_seq b s) bs)"
| "m_seq [] s = [s]"
| "m_seq (i # is) s = concat (map (m_seq is) (m_item i s))"

definition is_ascii_alnum :: "char \<Rightarrow> bool" where
  "is_ascii_alnum c =
     (let n = (of_char c :: nat)
      in (48 \<le> n \<and> n \<le> 57) \<or> (65 \<le> n \<and> n \<le> 90) \<or> (97 \<le> n \<and> n \<le> 122))"

text \<open>
  The parser reads the pattern from the left and keeps a stack of open groups; a frame
  holds the finished branches of a group and the items of the branch being read. The result
  is \<open>None\<close> where \<open>re.compile\<close> raises \<open>re.error\<close> (an unbalanced parenthesis,
  nothing to repeat, a repeated repeat) and for every construct outside the part of the
  language that is modelled (a backslash before a letter or a digit, a class, a counted or
  lazy repeat, a repeated group, \<open>^\<close>, and a group that is not \<open>(?:...)\<close>).
\<close>

type_synonym frame = "item list list \<times> item list"

fun parse :: "frame list \<Rightarrow> string \<Rightarrow> item option" where
  "parse st [] = (case st of [(bs, cur)] \<Rightarrow> Some (Group (bs @ [cur])) | _ \<Rightarrow> None)"
| "parse st (c # cs) =
     (case st of
        [] \<Rightarrow> None
      | (bs, cur) # up \<Rightarrow>
          if c = CHR ''('' then
            (case cs of
               q # k # cs' \<Rightarrow>
                 if q = CHR ''?'' \<and> k = CHR '':'' then parse (([], []) # st) cs' else None
             | _ \<Rightarrow> None)
          else if c = CHR '')'' then
            (case up of
               [] \<Rightarrow> None
             | (bs', cur') # up' \<Rightarrow> parse ((bs', cur' @ [Group (bs @ [cur])]) # up') cs)
          else if c = CHR ''|'' then parse ((bs @ [cur], []) # up) cs
          else if c = CHR ''*'' then
            (if cur = [] then None
             else case last cur of
                    One a \<Rightarrow> parse ((bs, butlast cur @ [Star a]) # up) cs
                  | _ \<Rightarrow> None)
          else if c = backslash then
            (case cs of
               [] \<Rightarrow> None
             | e # cs' \<Rightarrow>
                 if is_ascii_alnum e then None
                 else parse ((bs, cur @ [One (Lit e)]) # up) cs')
          else if c = CHR ''.'' then parse ((bs, cur @ [One Dot]) # up) cs
          else if c = CHR ''$'' then parse ((bs, cur @ [Eol]) # up) cs
          else if c \<in> set ''[{+?^'' then None
          else parse ((bs, cur @ [One (Lit c)]) # up) cs)"

text \<open>
  A compiled pattern object. Two pattern objects are equal, as dictionary keys too, when
  they were compiled from the same pattern text with the same flags.
\<close>

record compiled =
  pattern :: string
  prog :: item

definition re_compile :: "string \<Rightarrow> compiled option" where
  "re_compile p = map_option (\<lambda>r. \<lparr>pattern = p, prog = r\<rparr>) (parse [([], [])] p)"

text \<open>
  \<open>compiled.match(s) is not None\<close>: the pattern matches at the start of the subject;
  the match need not reach the end.
\<close>

definition re_match :: "compiled \<Rightarrow> string \<Rightarrow> bool" where
  "re_match c s = (m_item (prog c) s \<noteq> [])"

text \<open>
  \<open>re.match(p, s, re.IGNORECASE) is not None\<close>, for a pattern given as text: \<open>None\<close>
  when the pattern does not compile.
\<close>

definition re_match_text :: "string \<Rightarrow> string \<Rightarrow> bool option" where
  "re_match_text p s = map_option (\<lambda>c. re_match c s) (re_compile p)"

section \<open>scheme_to_regex\<close>

text \<open>\<open>list(dict.fromkeys(xs))\<close>: the first occurrence of each element, in order.\<close>

fun fromkeys_into :: "'a list \<Rightarrow> 'a list \<Rightarrow> 'a list" where
  "fromkeys_into seen [] = seen"
| "fromkeys_into seen (x # xs) = fromkeys_into (if x \<in> set seen then seen else seen @ [x]) xs"

definition dict_fromkeys :: "'a list \<Rightarrow> 'a list" where
  "dict_fromkeys xs = fromkeys_into [] xs"

text \<open>What one round of the loop over \<open>list(variants)\<close> appends for a variant.\<close>

definition swap_scheme :: "string \<Rightarrow> string list" where
  "swap_scheme variant =
     (if startswith variant ''https://'' then [''http://'' @ drop (length ''https://'') variant]
      else if startswith variant ''http://'' then [''https://'' @ drop (length ''http://'') variant]
      else [])"

definition scheme_variants :: "string \<Rightarrow> string list" where
  "scheme_variants scheme =
     (let variants = [scheme] @
            (if contains scheme ''://*.'' then [str_replace1 ''://*.'' ''://'' scheme] else []);
          variants = variants @ concat (map swap_scheme variants)
      in dict_fromkeys variants)"

definition variant_pattern :: "string \<Rightarrow> string" where
  "variant_pattern variant =
     (let pattern = str_replace [backslash, CHR ''&''] ''&''
                      (str_replace [backslash, CHR ''*''] ''.*'' (re_escape variant))
      in if \<not> endswith variant ''*'' then pattern @ ''$'' else pattern)"

definition scheme_to_regex :: "string \<Rightarrow> string" where
  "scheme_to_regex scheme =
     ''(?:'' @ join ''|'' (map variant_pattern (scheme_variants scheme)) @ '')''"

section \<open>compile_oembed_providers and get_oembed_endpoint\<close>

text \<open>
  A provider of the catalogue and one of its endpoints, with the keys the program reads.
  \<open>None\<close> is a key that the dictionary does not have.
\<close>

record endpoint =
  e_schemes :: "string list option"
  e_url :: "string option"

record provider =
  p_endpoints :: "endpoint list option"

datatype exn = RequestException | JSONDecodeError | AttributeError | ReError | OtherError

text \<open>
  The endpoint map is a dictionary from compiled patterns to endpoint URLs. A Python
  dictionary keeps its keys in the order of their first insertion, and a store under a key
  that is already present replaces the value where it stands.
\<close>

type_synonym endpoint_map = "(compiled \<times> string) list"

fun dict_set :: "('k \<times> 'v) list \<Rightarrow> 'k \<Rightarrow> 'v \<Rightarrow> ('k \<times> 'v) list" where
  "dict_set [] k v = [(k, v)]"
| "dict_set ((k', v') # kvs) k v =
     (if k' = k then (k', v) # kvs else (k', v') # dict_set kvs k v)"

definition endpoint_regex :: "string list \<Rightarrow> string" where
  "endpoint_regex schemes = ''(?:'' @ join ''|'' (map scheme_to_regex schemes) @ '')''"

text \<open>The body of the inner loop: one endpoint of one provider.\<close>

definition register_endpoint :: "endpoint_map \<Rightarrow> endpoint \<Rightarrow> exn + endpoint_map" where
  "register_endpoint endpoint_map endpoint =
     (let schemes = (case e_schemes endpoint of None \<Rightarrow> [] | Some ss \<Rightarrow> ss)
      in (case e_url endpoint of
            None \<Rightarrow> Inr endpoint_map
          | Some endpoint_url \<Rightarrow>
              (if schemes = [] \<or> endpoint_url = [] then Inr endpoint_map
               else
                 (let formatted_endpoint = str_replace ''{format}'' ''json'' endpoint_url;
                      regex_str = endpoint_regex schemes
                  in (case re_compile regex_str of
                        None \<Rightarrow> Inl ReError
                      | Some compiled_regex \<Rightarrow>
                          Inr (dict_set endpoint_map compiled_regex formatted_endpoint))))))"

fun register_endpoints :: "endpoint_map \<Rightarrow> endpoint list \<Rightarrow> exn + endpoint_map" where
  "register_endpoints endpoint_map [] = Inr endpoint_map"
| "register_endpoints endpoint_map (endpoint # rest) =
     (case register_endpoint endpoint_map endpoint of
        Inl e \<Rightarrow> Inl e
      | Inr endpoint_map' \<Rightarrow> register_endpoints endpoint_map' rest)"

fun register_providers :: "endpoint_map \<Rightarrow> provider list \<Rightarrow> exn + endpoint_map" where
  "register_providers endpoint_map [] = Inr endpoint_map"
| "register_providers endpoint_map (provider # rest) =
     (case register_endpoints endpoint_map
             (case p_endpoints provider of None \<Rightarrow> [] | Some es \<Rightarrow> es) of
        Inl e \<Rightarrow> Inl e
      | Inr endpoint_map' \<Rightarrow> register_providers endpoint_map' rest)"

definition compile_oembed_providers :: "provider list \<Rightarrow> exn + endpoint_map" where
  "compile_oembed_providers providers = register_providers [] providers"

text \<open>
  \<open>get_oembed_endpoint\<close> reads the global \<open>OEMBED_ENDPOINT_MAP\<close>; the model takes the
  map as its first argument.
\<close>

fun get_oembed_endpoint :: "endpoint_map \<Rightarrow> string \<Rightarrow> string option" where
  "get_oembed_endpoint [] url = None"
| "get_oembed_endpoint ((compiled_regex, endpoint_url) # rest) url =
     (if re_match compiled_regex url then Some endpoint_url
      else get_oembed_endpoint rest url)"

section \<open>get_oembed_data\<close>

text \<open>
  A decoded JSON value. An object is the list of its members, each key once; a float is
  given by its real value.
\<close>

datatype json =
    JNull
  | JBool bool
  | JInt int
  | JFloat real
  | JString string
  | JArray "json list"
  | JObject "(string \<times> json) list"

text \<open>Python's truth value of a decoded JSON value.\<close>

fun truthy :: "json \<Rightarrow> bool" where
  "truthy JNull = False"
| "truthy (JBool b) = b"
| "truthy (JInt i) = (i \<noteq> 0)"
| "truthy (JFloat x) = (x \<noteq> 0)"
| "truthy (JString s) = (s \<noteq> [])"
| "truthy (JArray xs) = (xs \<noteq> [])"
| "truthy (JObject kvs) = (kvs \<noteq> [])"

text \<open>\<open>data.get(key, default)\<close>.\<close>

definition dict_get :: "(string \<times> json) list \<Rightarrow> string \<Rightarrow> json \<Rightarrow> json" where
  "dict_get kvs key dflt = (case map_of kvs key of None \<Rightarrow> dflt | Some v \<Rightarrow> v)"

text \<open>
  Modelled from the spec: the class \<open>UrlOEmbedData\<close> of \<open>zerver.lib.url_preview.types\<close>,
  the \<open>Media\<close> variant of the unified result: a resource kind (photo or video), an image
  URL, optional inline embeddable markup (video only), an optional title and an optional
  description. The fields hold what the program stores in them; \<open>JNull\<close> is Python's
  \<open>None\<close>.
\<close>

record UrlOEmbedData =
  data_type :: string
  data_image :: json
  data_html :: "string option"
  data_title :: json
  data_description :: json

text \<open>
  The part of \<open>get_oembed_data\<close> after the request: reading the decoded response.
  \<open>data.get\<close> raises \<open>AttributeError\<close> when the response is not an object, and so does
  \<open>strip_cdata\<close> when the markup is not a string.
\<close>

definition oembed_result :: "json \<Rightarrow> exn + UrlOEmbedData option" where
  "oembed_result data =
     (case data of
        JObject kvs \<Rightarrow>
          (let oembed_resource_type = dict_get kvs ''type'' (JString '''');
               image = dict_get kvs ''url'' (dict_get kvs ''image'' JNull);
               thumbnail = dict_get kvs ''thumbnail_url'' JNull;
               html = dict_get kvs ''html'' (JString '''')
           in if oembed_resource_type = JString ''photo'' \<and> truthy image then
                Inr (Some \<lparr>data_type = ''photo'', data_image = image, data_html = None,
                            data_title = dict_get kvs ''title'' JNull,
                            data_description = dict_get kvs ''description'' JNull\<rparr>)
              else if oembed_resource_type = JString ''video'' \<and> truthy html \<and> truthy thumbnail then
                (case html of
                   JString h \<Rightarrow>
                     Inr (Some \<lparr>data_type = ''video'', data_image = thumbnail,
                                 data_html = Some (strip_cdata h),
                                 data_title = dict_get kvs ''title'' JNull,
                                 data_description = dict_get kvs ''description'' JNull\<rparr>)
                 | _ \<Rightarrow> Inl AttributeError)
              else Inr None)
      | _ \<Rightarrow> Inl AttributeError)"

text \<open>
  The HTTP session. \<open>session.get(url)\<close> raises or returns a response; of a response the
  program reads \<open>ok\<close> and \<open>json()\<close>. In the requests library \<open>ok\<close> is true unless
  \<open>raise_for_status()\<close> would raise, which it does for the status codes from 400 up to
  599. \<open>json()\<close> raises \<open>JSONDecodeError\<close> when the body is not JSON: \<open>body_json\<close> is
  \<open>None\<close> then.
\<close>

record response =
  status_code :: nat
  body_json :: "json option"

definition ok :: "response \<Rightarrow> bool" where
  "ok r = (\<not> (400 \<le> status_code r \<and> status_code r < 600))"

type_synonym session = "string \<Rightarrow> exn + response"

text \<open>
  \<open>urllib.parse.urlencode\<close> with its default \<open>quote_plus\<close>: letters, digits and
  \<open>_.-~\<close> are kept, a space becomes \<open>+\<close>, and every other character is written as the
  bytes of its UTF-8 encoding, each as \<open>%\<close> and two upper-case hexadecimal digits. A value
  that is not a string is converted with \<open>str\<close> first.
\<close>

definition hex_digit :: "nat \<Rightarrow> char" where
  "hex_digit n = ''0123456789ABCDEF'' ! (n mod 16)"

definition percent_byte :: "nat \<Rightarrow> string" where
  "percent_byte b = [CHR ''%'', hex_digit (b div 16), hex_digit (b mod 16)]"

definition utf8_bytes :: "char \<Rightarrow> nat list" where
  "utf8_bytes c =
     (let n = (of_char c :: nat)
      in if n < 128 then [n] else [192 + n div 64, 128 + n mod 64])"

definition quote_plus_char :: "char \<Rightarrow> string" where
  "quote_plus_char c =
     (if is_ascii_alnum c \<or> c \<in> set ''_.-~'' then [c]
      else if c = CHR '' '' then ''+''
      else concat (map percent_byte (utf8_bytes c)))"

definition quote_plus :: "string \<Rightarrow> string" where
  "quote_plus s = concat (map quote_plus_char s)"

fun digits :: "nat \<Rightarrow> string" where
  "digits n =
     (if n < 10 then [''0123456789'' ! n]
      else digits (n div 10) @ [''0123456789'' ! (n mod 10)])"

declare digits.simps [simp del]

definition str_int :: "int \<Rightarrow> string" where
  "str_int i = (if i < 0 then CHR ''-'' # digits (nat (- i)) else digits (nat i))"

datatype param = PStr string | PInt int

fun py_str :: "param \<Rightarrow> string" where
  "py_str (PStr s) = s"
| "py_str (PInt i) = str_int i"

definition urlencode :: "(string \<times> param) list \<Rightarrow> string" where
  "urlencode query =
     join ''&'' (map (\<lambda>(k, v). quote_plus k @ ''='' @ quote_plus (py_str v)) query)"

text \<open>
  \<open>get_oembed_data\<close>. The endpoint map and the session are arguments; an argument
  \<open>maxwidth\<close> or \<open>maxheight\<close> that the caller does not supply is \<open>None\<close> and takes
  its default. The result comes with the list of the URLs that were requested from the
  session, in order.
\<close>

definition get_oembed_data ::
  "endpoint_map \<Rightarrow> session \<Rightarrow> string \<Rightarrow> int option \<Rightarrow> int option
   \<Rightarrow> (exn + UrlOEmbedData option) \<times> string list" where
  "get_oembed_data endpoint_map session url maxwidth_arg maxheight_arg =
     (let maxwidth = (case maxwidth_arg of None \<Rightarrow> 640 | Some w \<Rightarrow> w);
          maxheight = (case maxheight_arg of None \<Rightarrow> 480 | Some h \<Rightarrow> h)
      in case get_oembed_endpoint endpoint_map url of
           None \<Rightarrow> (Inr None, [])
         | Some endpoint \<Rightarrow>
             let params = [(''url'', PStr url), (''format'', PStr ''json''),
                           (''maxwidth'', PInt maxwidth), (''maxheight'', PInt maxheight)];
                 request_url = endpoint @ ''?'' @ urlencode params;
                 result =
                   (case session request_url of
                      Inl e \<Rightarrow>
                        if e = RequestException \<or> e = JSONDecodeError then Inr None else Inl e
                    | Inr response \<Rightarrow>
                        if \<not> ok response then Inr None
                        else (case body_json response of
                                None \<Rightarrow> Inr None
                              | Some data \<Rightarrow> oembed_result data))
             in (result, [request_url]))"

text \<open>A session that answers every request with one response, and one that raises.\<close>

definition answering :: "response \<Rightarrow> session" where
  "answering r request_url = Inr r"



section \<open>What the compiled patterns mean\<close>

text \<open>
  The text that \<open>scheme_to_regex\<close> writes for one character of a variant, after the
  first replacement (\<open>tok1\<close>) and after both (\<open>tok\<close>), and the item that
  \<open>re.compile\<close> reads from it.
\<close>

definition tok1 :: "char \<Rightarrow> string" where
  "tok1 c = (if c = CHR ''*'' then ''.*''
             else if c \<in> set special_chars then [backslash, c] else [c])"

definition tok :: "char \<Rightarrow> string" where
  "tok c = (if c = CHR ''*'' then ''.*''
            else if c = CHR ''&'' then ''&''
            else if c \<in> set special_chars then [backslash, c] else [c])"

definition tok_item :: "char \<Rightarrow> item" where
  "tok_item c = (if c = CHR ''*'' then Star Dot else One (Lit c))"

definition variant_items :: "string \<Rightarrow> item list" where
  "variant_items v = map tok_item v @ (if endswith v ''*'' then [] else [Eol])"

definition scheme_item :: "string \<Rightarrow> item" where
  "scheme_item s = Group (map variant_items (scheme_variants s))"

definition endpoint_item :: "string list \<Rightarrow> item" where
  "endpoint_item ss = Group (map (\<lambda>s. [scheme_item s]) ss)"

text \<open>
  Wildcard matching of a whole string against a pattern: \<open>*\<close> stands for any sequence
  of characters that satisfy \<open>allowed\<close>, every other character for itself in either case.
\<close>

fun wild :: "(char \<Rightarrow> bool) \<Rightarrow> string \<Rightarrow> string \<Rightarrow> bool" where
  "wild allowed [] u = (u = [])"
| "wild allowed (p # ps) [] = (p = CHR ''*'' \<and> wild allowed ps [])"
| "wild allowed (p # ps) (x # xs) =
     (if p = CHR ''*'' then wild allowed ps (x # xs) \<or> (allowed x \<and> wild allowed (p # ps) xs)
      else ci_eq p x \<and> wild allowed ps xs)"

text \<open>
  The specification's reading of a pattern: \<open>*\<close> expands to any sequence of characters,
  and matching is case-insensitive. \<open>wild_match p u\<close> says that the whole of \<open>u\<close> is an
  instance of the pattern \<open>p\<close>.
\<close>

definition wild_match :: "string \<Rightarrow> string \<Rightarrow> bool" where
  "wild_match p u = wild (\<lambda>x. True) p u"

definition not_LF :: "char \<Rightarrow> bool" where
  "not_LF x = (x \<noteq> LF)"

text \<open>
  What the compiled text of one variant accepts: a prefix of the subject is an instance of
  the variant, with no line feed under a \<open>*\<close>; unless the variant ends in \<open>*\<close>, the
  prefix is the whole subject, or all of it but a last line feed.
\<close>

definition variant_accepts :: "string \<Rightarrow> string \<Rightarrow> bool" where
  "variant_accepts v s =
     (\<exists>u r. s = u @ r \<and> wild not_LF v u \<and> (endswith v ''*'' \<or> r = [] \<or> r = [LF]))"


text \<open>
  The endpoints of a catalogue in the order in which the two loops of
  \<open>compile_oembed_providers\<close> visit them, the endpoints that pass the guard of the
  loop (a pattern list that is present and not empty, a URL that is present and not empty),
  and the key and the value that such an endpoint is stored under.
\<close>

definition all_endpoints :: "provider list \<Rightarrow> endpoint list" where
  "all_endpoints providers =
     concat (map (\<lambda>p. case p_endpoints p of None \<Rightarrow> [] | Some es \<Rightarrow> es) providers)"

definition is_complete :: "endpoint \<Rightarrow> bool" where
  "is_complete e =
     (e_schemes e \<noteq> None \<and> e_schemes e \<noteq> Some [] \<and> e_url e \<noteq> None \<and> e_url e \<noteq> Some [])"

definition endpoint_key :: "endpoint \<Rightarrow> compiled" where
  "endpoint_key e =
     (let ss = (case e_schemes e of None \<Rightarrow> [] | Some ss \<Rightarrow> ss)
      in \<lparr>pattern = endpoint_regex ss, prog = Group [[endpoint_item ss]]\<rparr>)"

definition endpoint_value :: "endpoint \<Rightarrow> string" where
  "endpoint_value e =
     str_replace ''{format}'' ''json'' (case e_url e of None \<Rightarrow> [] | Some t \<Rightarrow> t)"

text \<open>One round of the inner loop, as a function on the endpoint map.\<close>

definition store :: "endpoint_map \<Rightarrow> endpoint \<Rightarrow> endpoint_map" where
  "store m e = (if is_complete e then dict_set m (endpoint_key e) (endpoint_value e) else m)"

text \<open>The lower-case form of a character, by its code.\<close>

definition lower_code :: "nat \<Rightarrow> nat" where
  "lower_code n = (if (65 \<le> n \<and> n \<le> 90) \<or> (192 \<le> n \<and> n \<le> 222 \<and> n \<noteq> 215) then n + 32 else n)"

section \<open>Example catalogues\<close>

definition first_endpoint :: endpoint where
  "first_endpoint =
     \<lparr>e_schemes = Some [''https://example.com/*''], e_url = Some ''https://first.example.com/oembed''\<rparr>"

definition second_endpoint :: endpoint where
  "second_endpoint =
     \<lparr>e_schemes = Some [''https://example.com/*''], e_url = Some ''https://second.example.com/oembed''\<rparr>"

definition same_pattern_providers :: "provider list" where
  "same_pattern_providers =
     [\<lparr>p_endpoints = Some [first_endpoint]\<rparr>, \<lparr>p_endpoints = Some [second_endpoint]\<rparr>]"

definition wildcard_endpoint :: endpoint where
  "wildcard_endpoint =
     \<lparr>e_schemes = Some [''https://*.example.com/watch*''],
      e_url = Some ''https://example.com/oembed.{format}''\<rparr>"

definition partial_providers :: "provider list" where
  "partial_providers =
     [\<lparr>p_endpoints = Some [wildcard_endpoint]\<rparr>,
      \<lparr>p_endpoints = None\<rparr>,
      \<lparr>p_endpoints = Some [\<lparr>e_schemes = None, e_url = Some ''https://invalid.example.com/oembed''\<rparr>]\<rparr>,
      \<lparr>p_endpoints = Some [\<lparr>e_schemes = Some [], e_url = Some ''https://invalid.example.com/oembed''\<rparr>]\<rparr>,
      \<lparr>p_endpoints = Some [\<lparr>e_schemes = Some [''https://missing-url.example.com/*''], e_url = None\<rparr>]\<rparr>]"


section \<open>Example responses\<close>

definition rich_response :: response where
  "rich_response =
     \<lparr>status_code = 200,
      body_json = Some (JObject [(''type'', JString ''rich''), (''title'', JString ''NASA''),
                                 (''html'', JString ''<p>test</p>'')])\<rparr>"

definition video_response :: response where
  "video_response =
     \<lparr>status_code = 200,
      body_json = Some (JObject [(''type'', JString ''video''), (''thumbnail_url'', JString ''T''),
                                 (''html'', JString ''<![CDATA[<iframe></iframe>]]>'')])\<rparr>"

definition empty_url_photo_response :: response where
  "empty_url_photo_response =
     \<lparr>status_code = 200,
      body_json = Some (JObject [(''type'', JString ''photo''), (''url'', JString ''''),
                                 (''image'', JString ''https://example.com/cat.png'')])\<rparr>"

definition image_photo_response :: response where
  "image_photo_response =
     \<lparr>status_code = 200,
      body_json = Some (JObject [(''type'', JString ''photo''),
                                 (''image'', JString ''https://example.com/cat.png'')])\<rparr>"


definition array_response :: response where
  "array_response = \<lparr>status_code = 200, body_json = Some (JArray [])\<rparr>"

definition null_response :: response where
  "null_response = \<lparr>status_code = 200, body_json = Some JNull\<rparr>"

definition first_map :: endpoint_map where
  "first_map = [(endpoint_key first_endpoint, ''https://first.example.com/oembed'')]"

section \<open>Facts about the string operations\<close>

lemma startswith_iff: "startswith s p \<longleftrightarrow> (\<exists>r. s = p @ r)"
  by (induction s p rule: startswith.induct) auto

lemma startswith_append [simp]: "startswith (p @ r) p"
  by (simp add: startswith_iff)

lemma endswith_iff: "endswith s p \<longleftrightarrow> (\<exists>r. s = r @ p)"
proof
  assume "endswith s p"
  then obtain r where "rev s = rev p @ r"
    by (auto simp: endswith_def startswith_iff)
  then have "s = rev r @ p"
    by (metis rev_append rev_rev_ident)
  then show "\<exists>r. s = r @ p" ..
next
  assume "\<exists>r. s = r @ p"
  then show "endswith s p"
    by (auto simp: endswith_def)
qed

lemma py_slice_9_minus_3:
  "length pre = 9 \<Longrightarrow> length suf = 3 \<Longrightarrow> py_slice (pre @ x @ suf) 9 (- 3) = x"
  by (simp add: py_slice_def Let_def)

lemma cdata_wrapped:
  assumes "startswith s ''<![CDATA[''" and "endswith s '']]>''"
  shows "\<exists>x. s = ''<![CDATA['' @ x @ '']]>''"
proof -
  from assms(1) obtain r where r: "s = ''<![CDATA['' @ r"
    by (auto simp: startswith_iff)
  from assms(2) obtain q where q: "s = q @ '']]>''"
    by (auto simp: endswith_iff)
  from r q have "''<![CDATA['' @ r = q @ '']]>''"
    by (simp only:)
  then obtain us where us:
    "(''<![CDATA['' = q @ us \<and> us @ r = '']]>'') \<or> (''<![CDATA['' @ us = q \<and> r = us @ '']]>'')"
    unfolding append_eq_append_conv2 by blast
  have "\<exists>x. r = x @ '']]>''"
  proof (cases "''<![CDATA['' = q @ us \<and> us @ r = '']]>''")
    case True
    have "us = []"
    proof (rule ccontr)
      assume "us \<noteq> []"
      then obtain a us' where a: "us = a # us'"
        by (cases us) auto
      with True have "a = CHR '']''" by simp
      with a have "CHR '']'' \<in> set (q @ us)" by simp
      with True have "CHR '']'' \<in> set ''<![CDATA[''" by (simp only:)
      then show False by simp
    qed
    with True show ?thesis by auto
  next
    case False
    with us show ?thesis by blast
  qed
  then show ?thesis using r by auto
qed

section \<open>CDATA unwrapping\<close>

text \<open>
  C6. \<open>strip_cdata\<close> removes exactly the wrapper of a string that starts with
  \<open><![CDATA[\<close> and ends with \<open>]]>\<close> (so the wrapper put back around the result
  gives the input again, and the wrapped \<open>X\<close> yields \<open>X\<close>), and returns every other
  string unchanged.
\<close>

theorem strip_cdata_unwraps:
  "strip_cdata (''<![CDATA['' @ x @ '']]>'') = x
   \<and> (startswith s ''<![CDATA['' \<and> endswith s '']]>'' \<longrightarrow>
        ''<![CDATA['' @ strip_cdata s @ '']]>'' = s)
   \<and> (\<not> (startswith s ''<![CDATA['' \<and> endswith s '']]>'') \<longrightarrow> strip_cdata s = s)"
proof -
  have wrapped: "strip_cdata (''<![CDATA['' @ y @ '']]>'') = y" for y
  proof -
    have "startswith (''<![CDATA['' @ y @ '']]>'') ''<![CDATA[''"
      by (simp only: startswith_iff) blast
    moreover have "endswith (''<![CDATA['' @ y @ '']]>'') '']]>''"
      by (simp only: endswith_iff) (metis append.assoc)
    moreover have "py_slice (''<![CDATA['' @ y @ '']]>'') 9 (- 3) = y"
      by (rule py_slice_9_minus_3) simp_all
    ultimately show ?thesis
      by (simp only: strip_cdata_def if_True simp_thms)
  qed
  have "''<![CDATA['' @ strip_cdata s @ '']]>'' = s"
    if "startswith s ''<![CDATA['' \<and> endswith s '']]>''"
  proof -
    from that obtain y where "s = ''<![CDATA['' @ y @ '']]>''"
      using cdata_wrapped by blast
    then show ?thesis
      using wrapped [of y] by (simp only:)
  qed
  moreover have "strip_cdata s = s"
    if "\<not> (startswith s ''<![CDATA['' \<and> endswith s '']]>'')"
    unfolding strip_cdata_def using that by (simp only: if_False)
  ultimately show ?thesis
    using wrapped [of x] by blast
qed

theorem strip_cdata_unwraps_witness:
  "strip_cdata ''<![CDATA[<iframe></iframe>]]>'' = ''<iframe></iframe>''
   \<and> startswith ''<![CDATA[X]]>'' ''<![CDATA['' \<and> endswith ''<![CDATA[X]]>'' '']]>''
   \<and> ''<![CDATA['' @ strip_cdata ''<![CDATA[X]]>'' @ '']]>'' = ''<![CDATA[X]]>''
   \<and> \<not> (startswith ''<iframe></iframe>'' ''<![CDATA['' \<and> endswith ''<iframe></iframe>'' '']]>'')
   \<and> strip_cdata ''<iframe></iframe>'' = ''<iframe></iframe>''"
  using strip_cdata_unwraps [of "''<iframe></iframe>''" "''<![CDATA[X]]>''"]
    strip_cdata_unwraps [of "[]" "''<iframe></iframe>''"]
  by (simp add: endswith_def)

section \<open>The text that scheme_to_regex writes\<close>

lemma str_replace_Nil: "old \<noteq> [] \<Longrightarrow> str_replace old new [] = []"
  by (simp add: str_replace.simps)

lemma str_replace_hit:
  "old \<noteq> [] \<Longrightarrow> str_replace old new (old @ r) = new @ str_replace old new r"
  by (subst str_replace.simps) simp

lemma str_replace_miss:
  "old \<noteq> [] \<Longrightarrow> \<not> startswith (c # cs) old \<Longrightarrow>
   str_replace old new (c # cs) = c # str_replace old new cs"
  by (subst str_replace.simps) simp

lemma backslash_special: "backslash \<in> set special_chars"
  by (simp add: special_chars_def)

lemma star_special: "CHR ''*'' \<in> set special_chars"
  by (simp add: special_chars_def)

lemma amp_special: "CHR ''&'' \<in> set special_chars"
  by (simp add: special_chars_def)

lemma re_escape_Cons:
  "re_escape (c # v) = (if c \<in> set special_chars then [backslash, c] else [c]) @ re_escape v"
  by (simp add: re_escape_def)

lemma re_escape_no_star: "\<not> startswith (re_escape v) ''*''"
  by (cases v) (auto simp: re_escape_def star_special backslash_def)

lemma first_replace:
  "str_replace [backslash, CHR ''*''] ''.*'' (re_escape v) = concat (map tok1 v)"
proof (induction v)
  case Nil
  show ?case by (simp add: re_escape_def str_replace_Nil)
next
  case (Cons c v)
  let ?old = "[backslash, CHR ''*'']"
  have ne: "?old \<noteq> []" by simp
  consider (star) "c = CHR ''*''"
    | (esc) "c \<noteq> CHR ''*''" "c \<in> set special_chars"
    | (plain) "c \<notin> set special_chars"
    by blast
  then show ?case
  proof cases
    case star
    have t: "tok1 c = ''.*''" using star by (simp add: tok1_def)
    have "re_escape (c # v) = ?old @ re_escape v"
      using star by (simp add: re_escape_Cons star_special)
    then show ?thesis
      using Cons.IH str_replace_hit [OF ne, of "''.*''" "re_escape v"]
      by (simp add: t)
  next
    case esc
    have t: "tok1 c = [backslash, c]" using esc by (simp add: tok1_def)
    have e: "re_escape (c # v) = backslash # c # re_escape v"
      using esc by (simp add: re_escape_Cons)
    have m1: "\<not> startswith (backslash # c # re_escape v) ?old"
      using esc by simp
    have m2: "\<not> startswith (c # re_escape v) ?old"
      using re_escape_no_star [of v] by simp
    show ?thesis
      using Cons.IH
      by (simp add: e str_replace_miss [OF ne m1] str_replace_miss [OF ne m2] t)
  next
    case plain
    then have nb: "c \<noteq> backslash" using backslash_special by blast
    have "c \<noteq> CHR ''*''" using plain star_special by blast
    then have t: "tok1 c = [c]" using plain by (simp add: tok1_def)
    have e: "re_escape (c # v) = c # re_escape v"
      using plain by (simp add: re_escape_Cons)
    have m: "\<not> startswith (c # re_escape v) ?old"
      using nb by simp
    show ?thesis
      using Cons.IH by (simp add: e str_replace_miss [OF ne m] t)
  qed
qed

lemma tok1s_no_amp: "\<not> startswith (concat (map tok1 v)) ''&''"
proof (cases v)
  case Nil
  then show ?thesis by simp
next
  case (Cons c w)
  have "tok1 c \<noteq> [] \<and> hd (tok1 c) \<noteq> CHR ''&''"
    using amp_special by (auto simp: tok1_def backslash_def)
  then show ?thesis
    using Cons by (cases "tok1 c") auto
qed

lemma second_replace:
  "str_replace [backslash, CHR ''&''] ''&'' (concat (map tok1 v)) = concat (map tok v)"
proof (induction v)
  case Nil
  show ?case by (simp add: str_replace_Nil)
next
  case (Cons c v)
  let ?old = "[backslash, CHR ''&'']"
  let ?R = "concat (map tok1 v)"
  have ne: "?old \<noteq> []" by simp
  have bs_ne: "backslash \<noteq> CHR ''.''" "backslash \<noteq> CHR ''*''"
    by (simp_all add: backslash_def)
  consider (star) "c = CHR ''*''"
    | (amp) "c = CHR ''&''"
    | (esc) "c \<noteq> CHR ''*''" "c \<noteq> CHR ''&''" "c \<in> set special_chars"
    | (plain) "c \<notin> set special_chars"
    by blast
  then show ?case
  proof cases
    case star
    have t: "tok1 c = ''.*''" "tok c = ''.*''"
      using star by (simp_all add: tok1_def tok_def)
    have m1: "\<not> startswith (CHR ''.'' # CHR ''*'' # ?R) ?old"
      using bs_ne by auto
    have m2: "\<not> startswith (CHR ''*'' # ?R) ?old"
      using bs_ne by auto
    show ?thesis
      using Cons.IH
      by (simp add: t str_replace_miss [OF ne m1] str_replace_miss [OF ne m2])
  next
    case amp
    have t: "tok1 c = ?old" "tok c = ''&''"
      using amp amp_special by (simp_all add: tok1_def tok_def)
    have "concat (map tok1 (c # v)) = ?old @ ?R"
      by (simp add: t)
    then show ?thesis
      using Cons.IH str_replace_hit [OF ne, of "''&''" ?R]
      by (simp add: t)
  next
    case esc
    have t: "tok1 c = [backslash, c]" "tok c = [backslash, c]"
      using esc by (simp_all add: tok1_def tok_def)
    have m1: "\<not> startswith (backslash # c # ?R) ?old"
      using esc by simp
    have m2: "\<not> startswith (c # ?R) ?old"
      using tok1s_no_amp [of v] by simp
    show ?thesis
      using Cons.IH
      by (simp add: t str_replace_miss [OF ne m1] str_replace_miss [OF ne m2])
  next
    case plain
    then have nb: "c \<noteq> backslash" using backslash_special by blast
    have "c \<noteq> CHR ''*''" "c \<noteq> CHR ''&''"
      using plain star_special amp_special by blast+
    then have t: "tok1 c = [c]" "tok c = [c]"
      using plain by (simp_all add: tok1_def tok_def)
    have m: "\<not> startswith (c # ?R) ?old"
      using nb by simp
    show ?thesis
      using Cons.IH by (simp add: t str_replace_miss [OF ne m])
  qed
qed

lemma escaped_tokens:
  "str_replace [backslash, CHR ''&''] ''&''
     (str_replace [backslash, CHR ''*''] ''.*'' (re_escape v)) = concat (map tok v)"
  by (simp add: first_replace second_replace)

lemma variant_pattern_tokens:
  "variant_pattern v = concat (map tok v) @ (if endswith v ''*'' then [] else ''$'')"
  by (simp add: variant_pattern_def escaped_tokens)

section \<open>Compiling the text\<close>

lemma parse_tok:
  "parse ((bs, cur) # up) (tok c @ rest) = parse ((bs, cur @ [tok_item c]) # up) rest"
proof -
  consider (star) "c = CHR ''*''"
    | (amp) "c = CHR ''&''"
    | (esc) "c \<noteq> CHR ''*''" "c \<noteq> CHR ''&''" "c \<in> set special_chars"
    | (plain) "c \<notin> set special_chars"
    by blast
  then show ?thesis
  proof cases
    case star
    then show ?thesis
      by (simp add: tok_def tok_item_def backslash_def)
  next
    case amp
    then show ?thesis
      by (simp add: tok_def tok_item_def backslash_def)
  next
    case esc
    then have "\<not> is_ascii_alnum c"
      by (auto simp: special_chars_def is_ascii_alnum_def backslash_def)
    then show ?thesis
      using esc by (simp add: tok_def tok_item_def backslash_def)
  next
    case plain
    then show ?thesis
      by (simp add: tok_def tok_item_def special_chars_def backslash_def)
  qed
qed

lemma parse_toks:
  "parse ((bs, cur) # up) (concat (map tok v) @ rest) =
   parse ((bs, cur @ map tok_item v) # up) rest"
proof (induction v arbitrary: cur)
  case Nil
  show ?case by simp
next
  case (Cons c v)
  have "parse ((bs, cur) # up) (concat (map tok (c # v)) @ rest) =
        parse ((bs, cur) # up) (tok c @ (concat (map tok v) @ rest))"
    by simp
  also have "\<dots> = parse ((bs, cur @ [tok_item c]) # up) (concat (map tok v) @ rest)"
    by (rule parse_tok)
  also have "\<dots> = parse ((bs, (cur @ [tok_item c]) @ map tok_item v) # up) rest"
    by (rule Cons.IH)
  finally show ?case by simp
qed

lemma parse_variant:
  "parse ((bs, cur) # up) (variant_pattern v @ rest) =
   parse ((bs, cur @ variant_items v) # up) rest"
proof (cases "endswith v ''*''")
  case True
  then show ?thesis
    by (simp add: variant_pattern_tokens variant_items_def parse_toks)
next
  case False
  have "parse ((bs, cur) # up) (variant_pattern v @ rest) =
        parse ((bs, cur) # up) (concat (map tok v) @ (CHR ''$'' # rest))"
    using False by (simp add: variant_pattern_tokens)
  also have "\<dots> = parse ((bs, cur @ map tok_item v) # up) (CHR ''$'' # rest)"
    by (rule parse_toks)
  also have "\<dots> = parse ((bs, cur @ map tok_item v @ [Eol]) # up) rest"
    by (simp add: backslash_def)
  finally show ?thesis
    using False by (simp add: variant_items_def)
qed

lemma parse_bar:
  "parse ((bs, cur) # up) (CHR ''|'' # rest) = parse ((bs @ [cur], []) # up) rest"
  by simp

lemma parse_close:
  "parse ((bs, cur) # (bs', cur') # up) (CHR '')'' # rest) =
   parse ((bs', cur' @ [Group (bs @ [cur])]) # up) rest"
  by simp

lemma parse_open:
  "parse st (''(?:'' @ rest) = (if st = [] then None else parse (([], []) # st) rest)"
  by (cases st) auto

lemma parse_join_variants:
  "vs \<noteq> [] \<Longrightarrow>
   parse ((bs, []) # (bs', cur') # up) (join ''|'' (map variant_pattern vs) @ '')'' @ rest) =
   parse ((bs', cur' @ [Group (bs @ map variant_items vs)]) # up) rest"
proof (induction vs arbitrary: bs)
  case Nil
  then show ?case by simp
next
  case (Cons v ws)
  show ?case
  proof (cases ws)
    case Nil
    have "parse ((bs, []) # (bs', cur') # up) (variant_pattern v @ (CHR '')'' # rest)) =
          parse ((bs, [] @ variant_items v) # (bs', cur') # up) (CHR '')'' # rest)"
      by (rule parse_variant)
    then show ?thesis
      using Nil by (simp add: parse_close)
  next
    case (Cons w ws')
    have ne: "ws \<noteq> []" using Cons by simp
    have "parse ((bs, []) # (bs', cur') # up)
            (join ''|'' (map variant_pattern (v # ws)) @ '')'' @ rest) =
          parse ((bs, []) # (bs', cur') # up)
            (variant_pattern v @ (CHR ''|'' # (join ''|'' (map variant_pattern ws) @ '')'' @ rest)))"
      using Cons by simp
    also have "\<dots> = parse ((bs, [] @ variant_items v) # (bs', cur') # up)
            (CHR ''|'' # (join ''|'' (map variant_pattern ws) @ '')'' @ rest))"
      by (rule parse_variant)
    also have "\<dots> = parse ((bs @ [variant_items v], []) # (bs', cur') # up)
            (join ''|'' (map variant_pattern ws) @ '')'' @ rest)"
      by (simp only: append_Nil parse_bar)
    also have "\<dots> =
        parse ((bs', cur' @ [Group ((bs @ [variant_items v]) @ map variant_items ws)]) # up) rest"
      by (rule Cons.IH [OF ne])
    finally show ?thesis by simp
  qed
qed

lemma fromkeys_into_set: "set (fromkeys_into seen xs) = set seen \<union> set xs"
  by (induction xs arbitrary: seen) auto

lemma dict_fromkeys_set [simp]: "set (dict_fromkeys xs) = set xs"
  by (simp add: dict_fromkeys_def fromkeys_into_set)

lemma scheme_in_variants: "s \<in> set (scheme_variants s)"
  by (simp add: scheme_variants_def Let_def)

lemma scheme_variants_nonempty: "scheme_variants s \<noteq> []"
  using scheme_in_variants [of s] by auto

lemma parse_scheme:
  "parse ((bs, cur) # up) (scheme_to_regex s @ rest) =
   parse ((bs, cur @ [scheme_item s]) # up) rest"
proof -
  have "parse ((bs, cur) # up) (scheme_to_regex s @ rest) =
        parse (([], []) # (bs, cur) # up)
          (join ''|'' (map variant_pattern (scheme_variants s)) @ '')'' @ rest)"
    unfolding scheme_to_regex_def using parse_open [of "(bs, cur) # up"] by simp
  also have "\<dots> =
      parse ((bs, cur @ [Group ([] @ map variant_items (scheme_variants s))]) # up) rest"
    by (rule parse_join_variants [OF scheme_variants_nonempty])
  finally show ?thesis by (simp add: scheme_item_def)
qed

lemma parse_join_schemes:
  "ss \<noteq> [] \<Longrightarrow>
   parse ((bs, []) # (bs', cur') # up) (join ''|'' (map scheme_to_regex ss) @ '')'' @ rest) =
   parse ((bs', cur' @ [Group (bs @ map (\<lambda>s. [scheme_item s]) ss)]) # up) rest"
proof (induction ss arbitrary: bs)
  case Nil
  then show ?case by simp
next
  case (Cons s ws)
  show ?case
  proof (cases ws)
    case Nil
    have "parse ((bs, []) # (bs', cur') # up) (scheme_to_regex s @ (CHR '')'' # rest)) =
          parse ((bs, [] @ [scheme_item s]) # (bs', cur') # up) (CHR '')'' # rest)"
      by (rule parse_scheme)
    then show ?thesis
      using Nil by (simp add: parse_close)
  next
    case (Cons w ws')
    have ne: "ws \<noteq> []" using Cons by simp
    have "parse ((bs, []) # (bs', cur') # up)
            (join ''|'' (map scheme_to_regex (s # ws)) @ '')'' @ rest) =
          parse ((bs, []) # (bs', cur') # up)
            (scheme_to_regex s @ (CHR ''|'' # (join ''|'' (map scheme_to_regex ws) @ '')'' @ rest)))"
      using Cons by simp
    also have "\<dots> = parse ((bs, [] @ [scheme_item s]) # (bs', cur') # up)
            (CHR ''|'' # (join ''|'' (map scheme_to_regex ws) @ '')'' @ rest))"
      by (rule parse_scheme)
    also have "\<dots> = parse ((bs @ [[scheme_item s]], []) # (bs', cur') # up)
            (join ''|'' (map scheme_to_regex ws) @ '')'' @ rest)"
      by (simp only: append_Nil parse_bar)
    also have "\<dots> =
        parse ((bs', cur' @ [Group ((bs @ [[scheme_item s]]) @ map (\<lambda>s. [scheme_item s]) ws)]) # up)
          rest"
      by (rule Cons.IH [OF ne])
    finally show ?thesis by simp
  qed
qed

lemma compile_scheme:
  "re_compile (scheme_to_regex s) =
   Some \<lparr>pattern = scheme_to_regex s, prog = Group [[scheme_item s]]\<rparr>"
proof -
  have "parse [([], [])] (scheme_to_regex s @ []) = parse [([], [] @ [scheme_item s])] []"
    by (rule parse_scheme)
  then show ?thesis by (simp add: re_compile_def)
qed

lemma compile_endpoint_regex:
  assumes "ss \<noteq> []"
  shows "re_compile (endpoint_regex ss) =
         Some \<lparr>pattern = endpoint_regex ss, prog = Group [[endpoint_item ss]]\<rparr>"
proof -
  have "parse [([], [])] (endpoint_regex ss) =
        parse [([], []), ([], [])] (join ''|'' (map scheme_to_regex ss) @ '')'' @ [])"
    unfolding endpoint_regex_def using parse_open [of "[([], [])]"] by simp
  also have "\<dots> = parse [([], [] @ [Group ([] @ map (\<lambda>s. [scheme_item s]) ss)])] []"
    by (rule parse_join_schemes [OF assms])
  finally show ?thesis by (simp add: re_compile_def endpoint_item_def)
qed

section \<open>Matching the compiled patterns\<close>

lemma wild_cong_set:
  "(\<And>x. x \<in> set u \<Longrightarrow> allowed x = allowed' x) \<Longrightarrow> wild allowed p u = wild allowed' p u"
  by (induction allowed p u rule: wild.induct) auto

lemma wild_star:
  "wild allowed (CHR ''*'' # ps) u \<longleftrightarrow>
   (\<exists>u1 u2. u = u1 @ u2 \<and> (\<forall>x\<in>set u1. allowed x) \<and> wild allowed ps u2)"
proof (induction u)
  case Nil
  show ?case by auto
next
  case (Cons x xs)
  show ?case
  proof
    assume "wild allowed (CHR ''*'' # ps) (x # xs)"
    then consider "wild allowed ps (x # xs)" | "allowed x" "wild allowed (CHR ''*'' # ps) xs"
      by auto
    then show "\<exists>u1 u2. x # xs = u1 @ u2 \<and> (\<forall>x\<in>set u1. allowed x) \<and> wild allowed ps u2"
    proof cases
      case 1
      then have "x # xs = [] @ (x # xs) \<and> (\<forall>x\<in>set []. allowed x) \<and> wild allowed ps (x # xs)"
        by simp
      then show ?thesis by blast
    next
      case 2
      then obtain u1 u2 where "xs = u1 @ u2" "\<forall>x\<in>set u1. allowed x" "wild allowed ps u2"
        using Cons.IH by blast
      then have "x # xs = (x # u1) @ u2 \<and> (\<forall>y\<in>set (x # u1). allowed y) \<and> wild allowed ps u2"
        using 2(1) by simp
      then show ?thesis by blast
    qed
  next
    assume "\<exists>u1 u2. x # xs = u1 @ u2 \<and> (\<forall>x\<in>set u1. allowed x) \<and> wild allowed ps u2"
    then obtain u1 u2 where u: "x # xs = u1 @ u2" "\<forall>x\<in>set u1. allowed x" "wild allowed ps u2"
      by blast
    show "wild allowed (CHR ''*'' # ps) (x # xs)"
    proof (cases u1)
      case Nil
      with u have "wild allowed ps (x # xs)" by simp
      then show ?thesis by simp
    next
      case (Cons y ys)
      then have "xs = ys @ u2" "\<forall>x\<in>set ys. allowed x" "allowed x"
        using u by auto
      then have "wild allowed (CHR ''*'' # ps) xs"
        using Cons.IH u(3) by blast
      then show ?thesis using \<open>allowed x\<close> by simp
    qed
  qed
qed

lemma wild_lit:
  "c \<noteq> CHR ''*'' \<Longrightarrow>
   wild allowed (c # ps) u \<longleftrightarrow> (\<exists>x u2. u = x # u2 \<and> ci_eq c x \<and> wild allowed ps u2)"
  by (cases u) auto

lemma set_star_rem:
  "set (star_rem a s) = {t. \<exists>u. s = u @ t \<and> (\<forall>x\<in>set u. m_atom a x)}"
proof (induction s)
  case Nil
  show ?case by auto
next
  case (Cons x xs)
  show ?case
  proof (intro set_eqI iffI)
    fix t
    assume "t \<in> set (star_rem a (x # xs))"
    then consider "t = x # xs" | "m_atom a x" "t \<in> set (star_rem a xs)"
      by (auto split: if_splits)
    then show "t \<in> {t. \<exists>u. x # xs = u @ t \<and> (\<forall>x\<in>set u. m_atom a x)}"
    proof cases
      case 1
      then have "x # xs = [] @ t \<and> (\<forall>x\<in>set []. m_atom a x)" by simp
      then show ?thesis by blast
    next
      case 2
      then obtain u where "xs = u @ t" "\<forall>x\<in>set u. m_atom a x"
        using Cons.IH by auto
      then have "x # xs = (x # u) @ t \<and> (\<forall>y\<in>set (x # u). m_atom a y)"
        using 2(1) by simp
      then show ?thesis by blast
    qed
  next
    fix t
    assume "t \<in> {t. \<exists>u. x # xs = u @ t \<and> (\<forall>x\<in>set u. m_atom a x)}"
    then obtain u where u: "x # xs = u @ t" "\<forall>x\<in>set u. m_atom a x"
      by blast
    show "t \<in> set (star_rem a (x # xs))"
    proof (cases u)
      case Nil
      then show ?thesis using u by auto
    next
      case (Cons y ys)
      then have "xs = ys @ t" "\<forall>x\<in>set ys. m_atom a x" "m_atom a x"
        using u by auto
      then have "t \<in> set (star_rem a xs)"
        using Cons.IH by blast
      then show ?thesis using \<open>m_atom a x\<close> by simp
    qed
  qed
qed

lemma set_m_seq_Cons:
  "set (m_seq (i # is) s) = (\<Union>r \<in> set (m_item i s). set (m_seq is r))"
  by simp

lemma set_m_item_One:
  "set (m_item (One a) s) = {r. \<exists>x. s = x # r \<and> m_atom a x}"
  by (cases s) auto

lemma m_seq_toks:
  "set (m_seq (map tok_item v @ k) s) =
   {t. \<exists>u r. s = u @ r \<and> wild not_LF v u \<and> t \<in> set (m_seq k r)}"
proof (induction v arbitrary: s)
  case Nil
  show ?case by simp
next
  case (Cons c v)
  show ?case
  proof (cases "c = CHR ''*''")
    case True
    have "set (m_seq (map tok_item (c # v) @ k) s) =
          (\<Union>r \<in> set (star_rem Dot s). set (m_seq (map tok_item v @ k) r))"
      using True by (simp add: tok_item_def)
    also have "\<dots> = {t. \<exists>u1 r. s = u1 @ r \<and> (\<forall>x\<in>set u1. not_LF x)
                     \<and> (\<exists>u2 r'. r = u2 @ r' \<and> wild not_LF v u2 \<and> t \<in> set (m_seq k r'))}"
      unfolding set_star_rem Cons.IH by (auto simp: not_LF_def)
    also have "\<dots> = {t. \<exists>u r'. s = u @ r' \<and> wild not_LF (c # v) u \<and> t \<in> set (m_seq k r')}"
      (is "?L = ?R")
    proof (intro set_eqI iffI)
      fix t
      assume "t \<in> ?L"
      then obtain u1 u2 r' where a: "s = u1 @ u2 @ r'" "\<forall>x\<in>set u1. not_LF x"
          "wild not_LF v u2" "t \<in> set (m_seq k r')"
        by blast
      have "wild not_LF (c # v) (u1 @ u2)"
        unfolding True wild_star using a by blast
      moreover have "s = (u1 @ u2) @ r'" using a by simp
      ultimately show "t \<in> ?R" using a(4) by blast
    next
      fix t
      assume "t \<in> ?R"
      then obtain u r' where a: "s = u @ r'" "wild not_LF (c # v) u" "t \<in> set (m_seq k r')"
        by blast
      then obtain u1 u2 where b: "u = u1 @ u2" "\<forall>x\<in>set u1. not_LF x" "wild not_LF v u2"
        unfolding True wild_star by blast
      have "s = u1 @ (u2 @ r')" using a b by simp
      then show "t \<in> ?L" using a(3) b by blast
    qed
    finally show ?thesis .
  next
    case False
    have "set (m_seq (map tok_item (c # v) @ k) s) =
          (\<Union>r \<in> set (m_item (One (Lit c)) s). set (m_seq (map tok_item v @ k) r))"
      using False by (simp add: tok_item_def)
    also have "\<dots> = {t. \<exists>x r. s = x # r \<and> ci_eq c x
                     \<and> (\<exists>u2 r'. r = u2 @ r' \<and> wild not_LF v u2 \<and> t \<in> set (m_seq k r'))}"
      unfolding set_m_item_One Cons.IH by auto
    also have "\<dots> = {t. \<exists>u r'. s = u @ r' \<and> wild not_LF (c # v) u \<and> t \<in> set (m_seq k r')}"
      (is "?L = ?R")
    proof (intro set_eqI iffI)
      fix t
      assume "t \<in> ?L"
      then obtain x u2 r' where a: "s = x # u2 @ r'" "ci_eq c x"
          "wild not_LF v u2" "t \<in> set (m_seq k r')"
        by blast
      have "wild not_LF (c # v) (x # u2)"
        using a False by simp
      moreover have "s = (x # u2) @ r'" using a by simp
      ultimately show "t \<in> ?R" using a(4) by blast
    next
      fix t
      assume "t \<in> ?R"
      then obtain u r' where a: "s = u @ r'" "wild not_LF (c # v) u" "t \<in> set (m_seq k r')"
        by blast
      then obtain x u2 where b: "u = x # u2" "ci_eq c x" "wild not_LF v u2"
        using wild_lit [OF False] by blast
      have "s = x # (u2 @ r')" using a b by simp
      then show "t \<in> ?L" using a(3) b by blast
    qed
    finally show ?thesis .
  qed
qed

lemma m_seq_variant:
  "m_seq (variant_items v) s \<noteq> [] \<longleftrightarrow> variant_accepts v s"
proof -
  have "set (m_seq (variant_items v) s) =
        {t. \<exists>u r. s = u @ r \<and> wild not_LF v u
              \<and> t \<in> set (m_seq (if endswith v ''*'' then [] else [Eol]) r)}"
    unfolding variant_items_def by (rule m_seq_toks)
  moreover have "m_seq (variant_items v) s \<noteq> [] \<longleftrightarrow> set (m_seq (variant_items v) s) \<noteq> {}"
    by simp
  ultimately show ?thesis
    unfolding variant_accepts_def by (auto split: if_splits)
qed

lemma m_item_Group_nonempty:
  "m_item (Group bs) s \<noteq> [] \<longleftrightarrow> (\<exists>b\<in>set bs. m_seq b s \<noteq> [])"
  by auto

lemma concat_m_seq_Nil: "concat (map (m_seq []) xs) = xs"
  by (induction xs) auto

lemma m_seq_single: "m_seq [i] s = m_item i s"
  by (simp add: concat_m_seq_Nil)

lemma m_item_Group_single: "m_item (Group [[i]]) s = m_item i s"
  using m_seq_single [of i s] by simp

lemma scheme_item_accepts:
  "m_item (scheme_item p) s \<noteq> [] \<longleftrightarrow> (\<exists>v\<in>set (scheme_variants p). variant_accepts v s)"
  unfolding scheme_item_def m_item_Group_nonempty by (simp add: m_seq_variant)

lemma endpoint_item_accepts:
  "m_item (endpoint_item ss) s \<noteq> [] \<longleftrightarrow>
   (\<exists>p\<in>set ss. \<exists>v\<in>set (scheme_variants p). variant_accepts v s)"
  unfolding endpoint_item_def m_item_Group_nonempty
  by (simp add: scheme_item_accepts del: m_item.simps)

lemma match_scheme:
  "re_compile (scheme_to_regex p) = Some c \<Longrightarrow>
   re_match c u \<longleftrightarrow> (\<exists>v\<in>set (scheme_variants p). variant_accepts v u)"
  using scheme_item_accepts [of p u]
  by (auto simp: compile_scheme re_match_def m_item_Group_single simp del: m_item.simps)

lemma match_endpoint:
  "ss \<noteq> [] \<Longrightarrow> re_compile (endpoint_regex ss) = Some c \<Longrightarrow>
   re_match c u \<longleftrightarrow> (\<exists>p\<in>set ss. \<exists>v\<in>set (scheme_variants p). variant_accepts v u)"
  using endpoint_item_accepts [of ss u]
  by (auto simp: compile_endpoint_regex re_match_def m_item_Group_single simp del: m_item.simps)

section \<open>The variants of a pattern\<close>

lemma contains_iff: "contains s sub \<longleftrightarrow> (\<exists>a b. s = a @ sub @ b)"
proof (induction s)
  case Nil
  show ?case by auto
next
  case (Cons c cs)
  show ?case
  proof
    assume "contains (c # cs) sub"
    then consider "startswith (c # cs) sub" | "contains cs sub" by auto
    then show "\<exists>a b. c # cs = a @ sub @ b"
    proof cases
      case 1
      then obtain b where "c # cs = [] @ sub @ b"
        by (auto simp: startswith_iff)
      then show ?thesis by blast
    next
      case 2
      then obtain a b where "cs = a @ sub @ b" using Cons.IH by blast
      then have "c # cs = (c # a) @ sub @ b" by simp
      then show ?thesis by blast
    qed
  next
    assume "\<exists>a b. c # cs = a @ sub @ b"
    then obtain a b where ab: "c # cs = a @ sub @ b" by blast
    show "contains (c # cs) sub"
    proof (cases a)
      case Nil
      then have "startswith (c # cs) sub"
        using ab by (simp add: startswith_iff)
      then show ?thesis by simp
    next
      case (Cons x xs)
      then have "cs = xs @ sub @ b" using ab by simp
      then have "contains cs sub" using Cons.IH by blast
      then show ?thesis by simp
    qed
  qed
qed

lemma str_replace1_split:
  "contains s old \<Longrightarrow> \<exists>a b. s = a @ old @ b \<and> str_replace1 old new s = a @ new @ b"
proof (induction s)
  case Nil
  then show ?case by simp
next
  case (Cons c cs)
  show ?case
  proof (cases "startswith (c # cs) old")
    case True
    then obtain b where b: "c # cs = old @ b"
      by (auto simp: startswith_iff)
    then have d: "drop (length old) (c # cs) = b"
      by (metis append_eq_conv_conj)
    have "str_replace1 old new (c # cs) = new @ drop (length old) (c # cs)"
      using True by simp
    then have "str_replace1 old new (c # cs) = [] @ new @ b"
      by (simp only: d append_Nil)
    moreover have "c # cs = [] @ old @ b"
      using b by simp
    ultimately show ?thesis by blast
  next
    case False
    then have "contains cs old" using Cons.prems by simp
    then obtain a b where "cs = a @ old @ b" "str_replace1 old new cs = a @ new @ b"
      using Cons.IH by blast
    then have "c # cs = (c # a) @ old @ b \<and> str_replace1 old new (c # cs) = (c # a) @ new @ b"
      using False by simp
    then show ?thesis by blast
  qed
qed

lemma endswith_star: "endswith x ''*'' \<longleftrightarrow> x \<noteq> [] \<and> last x = CHR ''*''"
  by (cases x rule: rev_cases) (auto simp: endswith_def)

lemma bare_ends_star:
  assumes "contains p ''://*.''"
  shows "endswith (str_replace1 ''://*.'' ''://'' p) ''*'' \<longleftrightarrow> endswith p ''*''"
proof -
  obtain a b where ab: "p = a @ ''://*.'' @ b" "str_replace1 ''://*.'' ''://'' p = a @ ''://'' @ b"
    using str_replace1_split [OF assms] by blast
  have e: "endswith (a @ ''://'' @ b) ''*'' \<longleftrightarrow> endswith (a @ ''://*.'' @ b) ''*''"
    unfolding endswith_star by (cases b rule: rev_cases) auto
  show ?thesis
    unfolding ab(2) unfolding ab(1) by (rule e)
qed

lemma swap_ends_star:
  "w \<in> set (swap_scheme v) \<Longrightarrow> endswith w ''*'' \<longleftrightarrow> endswith v ''*''"
proof -
  assume w: "w \<in> set (swap_scheme v)"
  consider (s) "startswith v ''https://''" | (p) "\<not> startswith v ''https://''" "startswith v ''http://''"
    | (n) "\<not> startswith v ''https://''" "\<not> startswith v ''http://''"
    by blast
  then show ?thesis
  proof cases
    case s
    define r where "r = drop (length ''https://'') v"
    have r: "v = ''https://'' @ r"
      using s unfolding r_def startswith_iff by auto
    have w': "w = ''http://'' @ r"
      using w s unfolding swap_scheme_def r_def by simp
    show ?thesis
      unfolding endswith_star w' unfolding r by (cases r rule: rev_cases) auto
  next
    case p
    define r where "r = drop (length ''http://'') v"
    have r: "v = ''http://'' @ r"
      using p(2) unfolding r_def startswith_iff by auto
    have w': "w = ''https://'' @ r"
      using w p unfolding swap_scheme_def r_def by simp
    show ?thesis
      unfolding endswith_star w' unfolding r by (cases r rule: rev_cases) auto
  next
    case n
    then show ?thesis using w by (simp add: swap_scheme_def)
  qed
qed

lemma variants_end_alike:
  assumes "v \<in> set (scheme_variants p)"
  shows "endswith v ''*'' \<longleftrightarrow> endswith p ''*''"
proof -
  let ?bare = "str_replace1 ''://*.'' ''://'' p"
  let ?base = "[p] @ (if contains p ''://*.'' then [?bare] else [])"
  have base: "endswith b ''*'' \<longleftrightarrow> endswith p ''*''" if "b \<in> set ?base" for b
    using that bare_ends_star by (auto split: if_splits)
  have "v \<in> set ?base \<or> (\<exists>b\<in>set ?base. v \<in> set (swap_scheme b))"
    using assms unfolding scheme_variants_def Let_def by auto
  then show ?thesis
    using base swap_ends_star by blast
qed

lemma wildcard_variants:
  assumes "sch = ''http'' \<or> sch = ''https''"
  shows "set (scheme_variants (sch @ ''://*.'' @ rest)) =
         {''https://*.'' @ rest, ''https://'' @ rest, ''http://*.'' @ rest, ''http://'' @ rest}"
proof -
  have c: "contains (sch @ ''://*.'' @ rest) ''://*.''"
    unfolding contains_iff by blast
  show ?thesis
    using assms
  proof
    assume "sch = ''http''"
    then show ?thesis
      by (auto simp: scheme_variants_def Let_def swap_scheme_def)
  next
    assume "sch = ''https''"
    then show ?thesis
      by (auto simp: scheme_variants_def Let_def swap_scheme_def)
  qed
qed

section \<open>Wildcard matching\<close>

lemma wild_Nil_iff: "wild allowed [] u \<longleftrightarrow> u = []"
  by simp

lemma wild_append:
  "wild allowed (v1 @ v2) u \<longleftrightarrow>
   (\<exists>u1 u2. u = u1 @ u2 \<and> wild allowed v1 u1 \<and> wild allowed v2 u2)"
proof (induction v1 arbitrary: u)
  case Nil
  show ?case by simp
next
  case (Cons c v1)
  show ?case
  proof (cases "c = CHR ''*''")
    case True
    show ?thesis
    proof
      assume "wild allowed ((c # v1) @ v2) u"
      then obtain a b where ab: "u = a @ b" "\<forall>x\<in>set a. allowed x" "wild allowed (v1 @ v2) b"
        using True by (auto simp: wild_star)
      then obtain b1 b2 where b: "b = b1 @ b2" "wild allowed v1 b1" "wild allowed v2 b2"
        using Cons.IH by blast
      have "wild allowed (c # v1) (a @ b1)"
        unfolding True wild_star using ab(2) b(2) by blast
      moreover have "u = (a @ b1) @ b2" using ab b by simp
      ultimately show "\<exists>u1 u2. u = u1 @ u2 \<and> wild allowed (c # v1) u1 \<and> wild allowed v2 u2"
        using b(3) by blast
    next
      assume "\<exists>u1 u2. u = u1 @ u2 \<and> wild allowed (c # v1) u1 \<and> wild allowed v2 u2"
      then obtain u1 u2 where u: "u = u1 @ u2" "wild allowed (c # v1) u1" "wild allowed v2 u2"
        by blast
      then obtain a b1 where a: "u1 = a @ b1" "\<forall>x\<in>set a. allowed x" "wild allowed v1 b1"
        using True by (auto simp: wild_star)
      have "wild allowed (v1 @ v2) (b1 @ u2)"
        using Cons.IH a(3) u(3) by blast
      moreover have "u = a @ (b1 @ u2)" using u a by simp
      ultimately have "wild allowed (CHR ''*'' # (v1 @ v2)) u"
        unfolding wild_star using a(2) by blast
      then show "wild allowed ((c # v1) @ v2) u"
        using True by simp
    qed
  next
    case False
    show ?thesis
    proof
      assume "wild allowed ((c # v1) @ v2) u"
      then obtain x b where xb: "u = x # b" "ci_eq c x" "wild allowed (v1 @ v2) b"
        using wild_lit [OF False, of allowed "v1 @ v2" u] by auto
      then obtain b1 b2 where b: "b = b1 @ b2" "wild allowed v1 b1" "wild allowed v2 b2"
        using Cons.IH by blast
      have "wild allowed (c # v1) (x # b1)"
        using False xb(2) b(2) by simp
      moreover have "u = (x # b1) @ b2" using xb b by simp
      ultimately show "\<exists>u1 u2. u = u1 @ u2 \<and> wild allowed (c # v1) u1 \<and> wild allowed v2 u2"
        using b(3) by blast
    next
      assume "\<exists>u1 u2. u = u1 @ u2 \<and> wild allowed (c # v1) u1 \<and> wild allowed v2 u2"
      then obtain u1 u2 where u: "u = u1 @ u2" "wild allowed (c # v1) u1" "wild allowed v2 u2"
        by blast
      then obtain x b1 where a: "u1 = x # b1" "ci_eq c x" "wild allowed v1 b1"
        using wild_lit [OF False, of allowed v1 u1] by auto
      have "wild allowed (v1 @ v2) (b1 @ u2)"
        using Cons.IH a(3) u(3) by blast
      then show "wild allowed ((c # v1) @ v2) u"
        using False a u by simp
    qed
  qed
qed

lemma wild_star_only: "wild allowed ''*'' u \<longleftrightarrow> (\<forall>x\<in>set u. allowed x)"
  using wild_star [of allowed "[]" u] by auto

lemma wild_open_tail:
  assumes "endswith v ''*''" and "wild allowed v u" and "\<forall>x\<in>set r. allowed x"
  shows "wild allowed v (u @ r)"
proof -
  obtain v' where v: "v = v' @ ''*''"
    using assms(1) by (auto simp: endswith_iff)
  obtain u1 u2 where u: "u = u1 @ u2" "wild allowed v' u1" "wild allowed ''*'' u2"
    using assms(2) unfolding v wild_append by blast
  have "wild allowed ''*'' (u2 @ r)"
    using u(3) assms(3) by (auto simp: wild_star_only)
  moreover have "u @ r = u1 @ (u2 @ r)" using u by simp
  ultimately show ?thesis
    unfolding v wild_append using u(2) by blast
qed

lemma wild_not_LF:
  "LF \<notin> set u \<Longrightarrow> wild not_LF v u \<longleftrightarrow> wild_match v u"
  unfolding wild_match_def
  by (rule wild_cong_set) (auto simp: not_LF_def)

lemma variant_accepts_url:
  assumes "LF \<notin> set s"
  shows "variant_accepts v s \<longleftrightarrow> wild_match v s"
proof
  assume "variant_accepts v s"
  then obtain u r where ur: "s = u @ r" "wild not_LF v u" "endswith v ''*'' \<or> r = [] \<or> r = [LF]"
    unfolding variant_accepts_def by blast
  have r: "\<forall>x\<in>set r. not_LF x"
    using assms ur(1) by (auto simp: not_LF_def)
  have "r \<noteq> [LF]" using assms ur(1) by auto
  then consider "endswith v ''*''" | "r = []" using ur(3) by blast
  then have "wild not_LF v s"
  proof cases
    case 1
    then show ?thesis using wild_open_tail [OF 1 ur(2) r] ur(1) by simp
  next
    case 2
    then show ?thesis using ur by simp
  qed
  then show "wild_match v s"
    using wild_not_LF [OF assms] by simp
next
  assume "wild_match v s"
  then have "wild not_LF v s"
    using wild_not_LF [OF assms] by simp
  then have "s = s @ [] \<and> wild not_LF v s \<and> (endswith v ''*'' \<or> [] = [] \<or> [] = [LF])"
    by simp
  then show "variant_accepts v s"
    unfolding variant_accepts_def by blast
qed

lemma variant_accepts_open:
  "endswith v ''*'' \<Longrightarrow> variant_accepts v s \<Longrightarrow> variant_accepts v (s @ extra)"
proof -
  assume e: "endswith v ''*''" and "variant_accepts v s"
  then obtain u r where "s = u @ r" "wild not_LF v u"
    unfolding variant_accepts_def by blast
  then have "s @ extra = u @ (r @ extra) \<and> wild not_LF v u" by simp
  then show ?thesis
    unfolding variant_accepts_def using e by blast
qed

lemma wild_no_star:
  "CHR ''*'' \<notin> set v \<Longrightarrow> wild allowed v u \<longleftrightarrow> list_all2 ci_eq v u"
  by (induction allowed v u rule: wild.induct) auto

lemma variants_no_star:
  assumes "CHR ''*'' \<notin> set p" and "v \<in> set (scheme_variants p)"
  shows "CHR ''*'' \<notin> set v"
proof -
  have nc: "\<not> contains p ''://*.''"
    using assms(1) by (auto simp: contains_iff)
  have "set (drop n p) \<subseteq> set p" for n
    by (rule set_drop_subset)
  then have "CHR ''*'' \<notin> set (drop n p)" for n
    using assms(1) by blast
  then have "CHR ''*'' \<notin> set w" if "w \<in> set (swap_scheme p)" for w
    using that by (auto simp: swap_scheme_def split: if_splits)
  then show ?thesis
    using assms nc by (auto simp: scheme_variants_def Let_def)
qed

section \<open>Building the endpoint map\<close>

lemma register_endpoint_incomplete:
  "\<not> is_complete e \<Longrightarrow> register_endpoint m e = Inr m"
  by (auto simp: is_complete_def register_endpoint_def Let_def split: option.splits)

lemma register_endpoint_complete:
  "is_complete e \<Longrightarrow>
   register_endpoint m e = Inr (dict_set m (endpoint_key e) (endpoint_value e))"
  by (auto simp: is_complete_def register_endpoint_def Let_def endpoint_key_def
      endpoint_value_def compile_endpoint_regex split: option.splits)

lemma register_endpoint_store: "register_endpoint m e = Inr (store m e)"
  by (simp add: store_def register_endpoint_incomplete register_endpoint_complete)

lemma register_endpoints_foldl: "register_endpoints m es = Inr (foldl store m es)"
  by (induction es arbitrary: m) (simp_all add: register_endpoint_store)

lemma register_providers_foldl:
  "register_providers m ps = Inr (foldl store m (all_endpoints ps))"
  by (induction ps arbitrary: m) (simp_all add: register_endpoints_foldl all_endpoints_def)

lemma compile_foldl:
  "compile_oembed_providers ps = Inr (foldl store [] (all_endpoints ps))"
  by (simp add: compile_oembed_providers_def register_providers_foldl)

lemma foldl_store_filter:
  "foldl store m (filter is_complete es) = foldl store m es"
  by (induction es arbitrary: m) (simp_all add: store_def)

lemma dict_set_map_fst:
  "map fst (dict_set m k v) = (if k \<in> set (map fst m) then map fst m else map fst m @ [k])"
  by (induction m) force+

lemma dict_set_keys: "fst ` set (dict_set m k v) = insert k (fst ` set m)"
proof -
  have "set (map fst (dict_set m k v)) = insert k (set (map fst m))"
    unfolding dict_set_map_fst by auto
  then show ?thesis by simp
qed

lemma dict_set_entries:
  "(k', v') \<in> set (dict_set m k v) \<Longrightarrow> (k', v') \<in> set m \<or> (k' = k \<and> v' = v)"
  by (induction m) (auto split: if_splits)

lemma store_keys:
  "fst ` set (store m e) = (if is_complete e then insert (endpoint_key e) (fst ` set m) else fst ` set m)"
  by (simp add: store_def dict_set_keys)

lemma foldl_store_keys:
  "fst ` set (foldl store m es) = fst ` set m \<union> endpoint_key ` {e \<in> set es. is_complete e}"
  by (induction es arbitrary: m) (auto simp: store_keys)

lemma foldl_store_entries:
  "(c, ep) \<in> set (foldl store m es) \<Longrightarrow>
   (c, ep) \<in> set m \<or> (\<exists>e\<in>set es. is_complete e \<and> c = endpoint_key e \<and> ep = endpoint_value e)"
proof (induction es arbitrary: m)
  case Nil
  then show ?case by simp
next
  case (Cons e es)
  from Cons.prems have "(c, ep) \<in> set (foldl store (store m e) es)" by simp
  then consider "(c, ep) \<in> set (store m e)"
    | "\<exists>e\<in>set es. is_complete e \<and> c = endpoint_key e \<and> ep = endpoint_value e"
    using Cons.IH by blast
  then show ?case
  proof cases
    case 1
    then show ?thesis
      using dict_set_entries [of c ep m "endpoint_key e" "endpoint_value e"]
      by (auto simp: store_def split: if_splits)
  next
    case 2
    then show ?thesis by auto
  qed
qed

lemma get_oembed_endpoint_None:
  "get_oembed_endpoint m u = None \<longleftrightarrow> (\<forall>(c, ep)\<in>set m. \<not> re_match c u)"
  by (induction m u rule: get_oembed_endpoint.induct) auto

lemma get_oembed_endpoint_first:
  "re_match c u \<Longrightarrow> (\<forall>(c', ep')\<in>set pre. \<not> re_match c' u) \<Longrightarrow>
   get_oembed_endpoint (pre @ (c, ep) # post) u = Some ep"
  by (induction pre) auto

lemma get_oembed_endpoint_Some:
  "get_oembed_endpoint m u = Some ep \<Longrightarrow> \<exists>c. (c, ep) \<in> set m \<and> re_match c u"
  by (induction m u rule: get_oembed_endpoint.induct) (auto split: if_splits)

lemma match_endpoint_key:
  "is_complete e \<Longrightarrow> e_schemes e = Some ss \<Longrightarrow>
   re_match (endpoint_key e) u \<longleftrightarrow>
   (\<exists>p\<in>set ss. \<exists>v\<in>set (scheme_variants p). variant_accepts v u)"
  using endpoint_item_accepts [of ss u]
  by (simp add: endpoint_key_def re_match_def m_item_Group_single del: m_item.simps)

section \<open>No placeholder is left\<close>

lemma contains_skip:
  "hd old \<notin> set a \<Longrightarrow> old \<noteq> [] \<Longrightarrow> contains (a @ r) old \<longleftrightarrow> contains r old"
proof (induction a)
  case Nil
  show ?case by simp
next
  case (Cons c a)
  then have "\<not> startswith (c # a @ r) old"
    by (cases old) auto
  then show ?case using Cons by simp
qed

lemma startswith_replaced:
  "new \<noteq> [] \<Longrightarrow> hd new \<notin> set t \<Longrightarrow> old \<noteq> [] \<Longrightarrow>
   startswith (str_replace old new x) t \<Longrightarrow> startswith x t"
proof (induction t arbitrary: x)
  case Nil
  show ?case by simp
next
  case (Cons a t)
  show ?case
  proof (cases x)
    case Nil
    then show ?thesis using Cons.prems by (simp add: str_replace_Nil)
  next
    case (Cons c cs)
    show ?thesis
    proof (cases "startswith x old")
      case True
      then obtain r where "x = old @ r" by (auto simp: startswith_iff)
      then have "str_replace old new x = new @ str_replace old new r"
        using Cons.prems(3) by (simp add: str_replace_hit)
      then have "startswith (new @ str_replace old new r) (a # t)"
        using Cons.prems(4) by simp
      then have "hd new = a"
        using Cons.prems(1) by (cases new) auto
      then show ?thesis using Cons.prems(2) by simp
    next
      case False
      then have "str_replace old new x = c # str_replace old new cs"
        using Cons Cons.prems(3) by (simp add: str_replace_miss)
      then have "c = a" "startswith (str_replace old new cs) t"
        using Cons.prems(4) by auto
      moreover have "hd new \<notin> set t" using Cons.prems(2) by simp
      ultimately have "startswith cs t"
        using Cons.IH [OF Cons.prems(1) _ Cons.prems(3)] by blast
      then show ?thesis using Cons \<open>c = a\<close> by simp
    qed
  qed
qed

lemma replaced_all:
  assumes "old = o1 # t" and "new \<noteq> []" and "hd new \<notin> set t" and "o1 \<notin> set new"
  shows "\<not> contains (str_replace old new s) old"
proof (induction s rule: length_induct)
  case (1 s)
  have ne: "old \<noteq> []" using assms(1) by simp
  show ?case
  proof (cases s)
    case Nil
    then show ?thesis using ne by (simp add: str_replace_Nil)
  next
    case (Cons c cs)
    show ?thesis
    proof (cases "startswith s old")
      case True
      then obtain r where r: "s = old @ r" by (auto simp: startswith_iff)
      then have "length r < length s" using ne by simp
      then have "\<not> contains (str_replace old new r) old" using 1 by blast
      moreover have "hd old \<notin> set new" using assms by simp
      ultimately have "\<not> contains (new @ str_replace old new r) old"
        using contains_skip [OF _ ne] by blast
      then show ?thesis using r ne by (simp add: str_replace_hit)
    next
      case False
      have eq: "str_replace old new s = c # str_replace old new cs"
        using False Cons ne by (simp add: str_replace_miss)
      have "\<not> contains (str_replace old new cs) old"
        using 1 Cons by simp
      moreover have "\<not> startswith (c # str_replace old new cs) old"
      proof
        assume "startswith (c # str_replace old new cs) old"
        then have "c = o1" "startswith (str_replace old new cs) t"
          using assms(1) by auto
        then have "startswith cs t"
          using startswith_replaced [OF assms(2) assms(3) ne] by blast
        then have "startswith s old"
          using Cons assms(1) \<open>c = o1\<close> by simp
        then show False using False by simp
      qed
      ultimately show ?thesis using eq by simp
    qed
  qed
qed

lemma no_format_left: "\<not> contains (str_replace ''{format}'' ''json'' s) ''{format}''"
  by (rule replaced_all [of _ "CHR ''{''" "''format}''"]) simp_all

section \<open>The translation of the characters of a pattern\<close>

lemma star_rem_nonempty: "star_rem a s \<noteq> []"
  by (induction s) auto

lemma star_dot_greedy: "hd (star_rem Dot s) = dropWhile (\<lambda>x. x \<noteq> LF) s"
  by (induction s) (auto simp: star_rem_nonempty)

lemma lower_char_cased:
  "lower_char x \<noteq> x \<Longrightarrow>
   (97 \<le> (of_char (lower_char x) :: nat) \<and> (of_char (lower_char x) :: nat) \<le> 122)
   \<or> (224 \<le> (of_char (lower_char x) :: nat) \<and> (of_char (lower_char x) :: nat) \<le> 254)"
  by (auto simp: lower_char_def Let_def split: if_splits)

lemma special_lower: "c \<in> set special_chars \<Longrightarrow> lower_char c = c"
  by (auto simp: special_chars_def lower_char_def backslash_def)

lemma special_code:
  "c \<in> set special_chars \<Longrightarrow> (of_char c :: nat) < 97 \<or> (122 < (of_char c :: nat) \<and> (of_char c :: nat) < 224)"
  by (auto simp: special_chars_def backslash_def)

lemma special_ci_eq:
  assumes "c \<in> set special_chars"
  shows "ci_eq c x \<longleftrightarrow> c = x"
proof
  assume "ci_eq c x"
  then have e: "lower_char x = c"
    using special_lower [OF assms] by (simp add: ci_eq_def)
  show "c = x"
  proof (rule ccontr)
    assume "c \<noteq> x"
    then have "lower_char x \<noteq> x" using e by simp
    then show False
      using lower_char_cased [of x] special_code [OF assms] e by auto
  qed
next
  assume "c = x"
  then show "ci_eq c x" by (simp add: ci_eq_def)
qed

lemma fromkeys_into_prefix: "\<exists>r. fromkeys_into seen xs = seen @ r"
proof (induction xs arbitrary: seen)
  case Nil
  show ?case by simp
next
  case (Cons x xs)
  obtain r where "fromkeys_into (if x \<in> set seen then seen else seen @ [x]) xs
      = (if x \<in> set seen then seen else seen @ [x]) @ r"
    using Cons.IH by blast
  then show ?case by (cases "x \<in> set seen") auto
qed

lemma scheme_first_variant: "hd (scheme_variants scheme) = scheme"
proof -
  let ?rest = "(if contains scheme ''://*.'' then [str_replace1 ''://*.'' ''://'' scheme] else [])"
  let ?all = "([scheme] @ ?rest) @ concat (map swap_scheme ([scheme] @ ?rest))"
  have "scheme_variants scheme = fromkeys_into [] ?all"
    by (simp add: scheme_variants_def Let_def dict_fromkeys_def)
  also have "\<dots> = fromkeys_into [scheme] (tl ?all)"
    by simp
  finally obtain r where "scheme_variants scheme = [scheme] @ r"
    using fromkeys_into_prefix [of "[scheme]" "tl ?all"] by auto
  then show ?thesis by simp
qed

text \<open>
  C8. The text that \<open>scheme_to_regex\<close> returns is \<open>(?:\<close>, the texts of the variants of
  the pattern joined by \<open>|\<close>, and \<open>)\<close>; the pattern itself is the first variant. The text
  of a variant is the variant character by character: \<open>*\<close> becomes \<open>.*\<close>, \<open>&\<close> stays
  a bare \<open>&\<close>, every other character that \<open>re.escape\<close> treats as special is written
  with a backslash, and every remaining character is copied (with \<open>$\<close> at the end unless
  the variant ends in \<open>*\<close>). The text of \<open>scheme_to_regex\<close> compiles, to the group of its
  variants: \<open>.*\<close> to the starred any-character item, each other character to the literal
  of that character. The starred item matches any run of characters other than line feeds
  and tries the longest run first; the literal matches exactly one character, equal to it
  up to case, and for a special character only that character itself.
\<close>

theorem scheme_to_regex_translates_characters:
  "scheme_to_regex scheme =
     ''(?:'' @ join ''|''
       (map (\<lambda>variant.
               concat (map (\<lambda>c. if c = CHR ''*'' then ''.*''
                                  else if c = CHR ''&'' then ''&''
                                  else if c \<in> set special_chars then [backslash, c]
                                  else [c]) variant)
               @ (if endswith variant ''*'' then [] else ''$''))
            (scheme_variants scheme))
     @ '')''
   \<and> hd (scheme_variants scheme) = scheme
   \<and> scheme \<in> set (scheme_variants scheme)
   \<and> re_compile (scheme_to_regex scheme) =
       Some \<lparr>pattern = scheme_to_regex scheme,
             prog = Group [[Group
               (map (\<lambda>variant.
                       map (\<lambda>c. if c = CHR ''*'' then Star Dot else One (Lit c)) variant
                       @ (if endswith variant ''*'' then [] else [Eol]))
                    (scheme_variants scheme))]]\<rparr>
   \<and> variant_pattern variant =
     concat (map (\<lambda>c. if c = CHR ''*'' then ''.*''
                        else if c = CHR ''&'' then ''&''
                        else if c \<in> set special_chars then [backslash, c]
                        else [c]) variant)
     @ (if endswith variant ''*'' then [] else ''$'')
   \<and> parse [([], [])] (variant_pattern variant) =
       Some (Group [map (\<lambda>c. if c = CHR ''*'' then Star Dot else One (Lit c)) variant
                    @ (if endswith variant ''*'' then [] else [Eol])])
   \<and> set (m_item (Star Dot) s) = {t. \<exists>w. s = w @ t \<and> LF \<notin> set w}
   \<and> hd (m_item (Star Dot) s) = dropWhile (\<lambda>x. x \<noteq> LF) s
   \<and> set (m_item (One (Lit c)) s) = {t. \<exists>x. s = x # t \<and> ci_eq c x}
   \<and> (c \<in> set special_chars \<longrightarrow> ci_eq c x = (c = x))"
proof -
  have t: "tok = (\<lambda>c. if c = CHR ''*'' then ''.*''
                        else if c = CHR ''&'' then ''&''
                        else if c \<in> set special_chars then [backslash, c]
                        else [c])"
    by (rule ext) (simp add: tok_def)
  have i: "tok_item = (\<lambda>c. if c = CHR ''*'' then Star Dot else One (Lit c))"
    by (rule ext) (simp add: tok_item_def)
  have vp: "variant_pattern =
      (\<lambda>variant. concat (map tok variant) @ (if endswith variant ''*'' then [] else ''$''))"
    by (rule ext) (rule variant_pattern_tokens)
  have vi: "variant_items =
      (\<lambda>variant. map tok_item variant @ (if endswith variant ''*'' then [] else [Eol]))"
    by (rule ext) (simp add: variant_items_def)
  have a: "scheme_to_regex scheme =
      ''(?:'' @ join ''|''
        (map (\<lambda>variant. concat (map tok variant) @ (if endswith variant ''*'' then [] else ''$''))
             (scheme_variants scheme))
      @ '')''"
    unfolding scheme_to_regex_def vp ..
  have b: "hd (scheme_variants scheme) = scheme"
    by (rule scheme_first_variant)
  have c: "scheme \<in> set (scheme_variants scheme)"
    by (rule scheme_in_variants)
  have d: "re_compile (scheme_to_regex scheme) =
       Some \<lparr>pattern = scheme_to_regex scheme,
             prog = Group [[Group
               (map (\<lambda>variant. map tok_item variant @ (if endswith variant ''*'' then [] else [Eol]))
                    (scheme_variants scheme))]]\<rparr>"
    using compile_scheme [of scheme] unfolding scheme_item_def vi .
  have 1: "variant_pattern variant = concat (map tok variant)
      @ (if endswith variant ''*'' then [] else ''$'')"
    by (rule variant_pattern_tokens)
  have "parse [([], [])] (variant_pattern variant @ []) = parse [([], [] @ variant_items variant)] []"
    by (rule parse_variant)
  then have 2: "parse [([], [])] (variant_pattern variant) =
      Some (Group [map tok_item variant @ (if endswith variant ''*'' then [] else [Eol])])"
    by (simp add: variant_items_def)
  have 3: "set (m_item (Star Dot) s) = {t. \<exists>w. s = w @ t \<and> LF \<notin> set w}"
    by (auto simp: set_star_rem)
  have 4: "hd (m_item (Star Dot) s) = dropWhile (\<lambda>x. x \<noteq> LF) s"
    by (simp add: star_dot_greedy)
  have 5: "set (m_item (One (Lit c)) s) = {t. \<exists>x. s = x # t \<and> ci_eq c x}"
    by (simp add: set_m_item_One del: m_item.simps)
  have 6: "c \<in> set special_chars \<longrightarrow> ci_eq c x = (c = x)"
    using special_ci_eq by blast
  show ?thesis
    using a b c d 1 2 3 4 5 6 unfolding t i by (intro conjI)
qed

lemma variants_example:
  "scheme_variants ''https://a.b/*&c'' = [''https://a.b/*&c'', ''http://a.b/*&c'']"
  by (simp add: scheme_variants_def Let_def swap_scheme_def dict_fromkeys_def)

theorem scheme_to_regex_translates_characters_witness:
  "scheme_to_regex ''https://a.b/*&c'' =
     ''(?:https://a'' @ [backslash] @ ''.b/.*&c$|http://a'' @ [backslash] @ ''.b/.*&c$)''
   \<and> variant_pattern ''a*&.'' = ''a.*&'' @ [backslash] @ ''.$''
   \<and> parse [([], [])] (variant_pattern ''a*&.'') =
       Some (Group [[One (Lit CHR ''a''), Star Dot, One (Lit CHR ''&''), One (Lit CHR ''.''), Eol]])
   \<and> CHR ''.'' \<in> set special_chars
   \<and> ci_eq CHR ''.'' CHR ''.'' \<and> \<not> ci_eq CHR ''.'' CHR ''x''"
proof -
  note t1 = scheme_to_regex_translates_characters
    [of "''https://a.b/*&c''" "''a*&.''" "[]" "CHR ''.''" "CHR ''.''"]
  note t2 = scheme_to_regex_translates_characters
    [of "''https://a.b/*&c''" "''a*&.''" "[]" "CHR ''.''" "CHR ''x''"]
  have a: "scheme_to_regex ''https://a.b/*&c'' =
     ''(?:https://a'' @ [backslash] @ ''.b/.*&c$|http://a'' @ [backslash] @ ''.b/.*&c$)''"
    using t1 [THEN conjunct1]
    by (simp add: variants_example special_chars_def endswith_def backslash_def)
  have rest: "variant_pattern ''a*&.'' = ''a.*&'' @ [backslash] @ ''.$''
   \<and> parse [([], [])] (variant_pattern ''a*&.'') =
       Some (Group [[One (Lit CHR ''a''), Star Dot, One (Lit CHR ''&''), One (Lit CHR ''.''), Eol]])
   \<and> CHR ''.'' \<in> set special_chars
   \<and> ci_eq CHR ''.'' CHR ''.'' \<and> \<not> ci_eq CHR ''.'' CHR ''x''"
    using t1 [THEN conjunct2, THEN conjunct2, THEN conjunct2, THEN conjunct2]
      t2 [THEN conjunct2, THEN conjunct2, THEN conjunct2, THEN conjunct2]
    by (simp add: special_chars_def endswith_def backslash_def)
  show ?thesis by (rule conjI [OF a rest])
qed

section \<open>The end of a pattern\<close>

lemma match_text_scheme:
  "re_match_text (scheme_to_regex p) u = Some (\<exists>v\<in>set (scheme_variants p). variant_accepts v u)"
  using match_scheme [OF compile_scheme, of p u]
  by (simp add: re_match_text_def compile_scheme)

lemma match_text_url:
  "LF \<notin> set u \<Longrightarrow>
   re_match_text (scheme_to_regex p) u = Some (\<exists>v\<in>set (scheme_variants p). wild_match v u)"
  unfolding match_text_scheme using variant_accepts_url by blast

lemma variant_remainders:
  assumes "\<not> endswith v ''*''" and "t \<in> set (m_seq (variant_items v) s)"
  shows "\<exists>w. s = w @ t \<and> (t = [] \<or> t = [LF])"
proof -
  have "set (m_seq (variant_items v) s) =
        {t. \<exists>u r. s = u @ r \<and> wild not_LF v u \<and> t \<in> set (m_seq [Eol] r)}"
    using m_seq_toks [of v "[Eol]" s] assms(1) by (simp add: variant_items_def)
  then obtain u r where "s = u @ r" "t \<in> set (m_seq [Eol] r)"
    using assms(2) by blast
  then show ?thesis
    by (auto split: if_splits)
qed

lemma scheme_remainders:
  assumes "\<not> endswith p ''*''" and "LF \<notin> set s"
  shows "set (m_item (Group [[scheme_item p]]) s) \<subseteq> {[]}"
proof
  fix t
  assume "t \<in> set (m_item (Group [[scheme_item p]]) s)"
  then have "t \<in> set (m_item (scheme_item p) s)"
    by (simp only: m_item_Group_single)
  then obtain v where v: "v \<in> set (scheme_variants p)" "t \<in> set (m_seq (variant_items v) s)"
    by (auto simp: scheme_item_def)
  have "\<not> endswith v ''*''"
    using variants_end_alike [OF v(1)] assms(1) by simp
  then obtain w where "s = w @ t" "t = [] \<or> t = [LF]"
    using variant_remainders v(2) by blast
  then show "t \<in> {[]}"
    using assms(2) by auto
qed

lemma star_free_variants:
  assumes "CHR ''*'' \<notin> set p"
  shows "set (scheme_variants p) = {p} \<union> set (swap_scheme p)"
proof -
  have nc: "\<not> contains p ''://*.''"
    using assms by (auto simp: contains_iff)
  show ?thesis
    using nc by (simp add: scheme_variants_def Let_def)
qed

lemma colon_not_s: "\<not> (ci_eq CHR '':'' x \<and> ci_eq CHR ''s'' x)"
proof
  assume "ci_eq CHR '':'' x \<and> ci_eq CHR ''s'' x"
  then have "lower_char CHR '':'' = lower_char CHR ''s''"
    by (simp add: ci_eq_def)
  then show False
    by (simp add: lower_char_def)
qed

lemma swapped_not_both:
  assumes "list_all2 ci_eq (''http://'' @ rest) u"
    and "list_all2 ci_eq (''https://'' @ rest) (u @ extra)"
  shows False
proof -
  have l: "length u = 7 + length rest"
    using list_all2_lengthD [OF assms(1)] by simp
  have a: "ci_eq ((''http://'' @ rest) ! 4) (u ! 4)"
    using list_all2_nthD [OF assms(1), of 4] by simp
  have "ci_eq ((''https://'' @ rest) ! 4) ((u @ extra) ! 4)"
    using list_all2_nthD [OF assms(2), of 4] by simp
  then have b: "ci_eq ((''https://'' @ rest) ! 4) (u ! 4)"
    using l by (simp add: nth_append)
  have "ci_eq CHR '':'' (u ! 4)" using a by simp
  moreover have "ci_eq CHR ''s'' (u ! 4)" using b by simp
  ultimately show False using colon_not_s by blast
qed

lemma star_free_extension:
  assumes v: "v \<in> {p} \<union> set (swap_scheme p)" and v': "v' \<in> {p} \<union> set (swap_scheme p)"
    and m: "list_all2 ci_eq v u" and m': "list_all2 ci_eq v' (u @ extra)"
    and e: "extra \<noteq> []"
  shows False
proof -
  have l: "length v < length v'"
    using list_all2_lengthD [OF m] list_all2_lengthD [OF m'] e by simp
  consider (https) rest where "p = ''https://'' @ rest" "swap_scheme p = [''http://'' @ rest]"
    | (http) rest where "p = ''http://'' @ rest" "swap_scheme p = [''https://'' @ rest]"
    | (none) "swap_scheme p = []"
  proof (cases "startswith p ''https://''")
    case True
    then obtain rest where "p = ''https://'' @ rest" unfolding startswith_iff by blast
    then show ?thesis using https by (simp add: swap_scheme_def)
  next
    case False
    show ?thesis
    proof (cases "startswith p ''http://''")
      case True
      then obtain rest where "p = ''http://'' @ rest" unfolding startswith_iff by blast
      then show ?thesis using http False by (simp add: swap_scheme_def)
    next
      case f: False
      show ?thesis using none False f by (simp add: swap_scheme_def)
    qed
  qed
  then show False
  proof cases
    case https
    then have "v = ''http://'' @ rest \<and> v' = ''https://'' @ rest"
      using v v' l by auto
    then show False using swapped_not_both m m' by blast
  next
    case http
    then have "v = ''http://'' @ rest \<and> v' = ''https://'' @ rest"
      using v v' l by auto
    then show False using swapped_not_both m m' by blast
  next
    case none
    then show False using v v' l by auto
  qed
qed

lemma star_free_rejects_extension:
  assumes "CHR ''*'' \<notin> set p" and "LF \<notin> set (u @ extra)" and "extra \<noteq> []"
    and "re_match_text (scheme_to_regex p) u = Some True"
  shows "re_match_text (scheme_to_regex p) (u @ extra) = Some False"
proof -
  have lu: "LF \<notin> set u" using assms(2) by simp
  have w: "(\<exists>v\<in>set (scheme_variants p). wild_match v s)
        \<longleftrightarrow> (\<exists>v\<in>set (scheme_variants p). list_all2 ci_eq v s)" for s
    using variants_no_star [OF assms(1)] wild_no_star unfolding wild_match_def by blast
  have "\<exists>v\<in>set (scheme_variants p). list_all2 ci_eq v u"
    using assms(4) match_text_url [OF lu, of p] w [of u] by simp
  then obtain v where v: "v \<in> {p} \<union> set (swap_scheme p)" "list_all2 ci_eq v u"
    unfolding star_free_variants [OF assms(1)] by blast
  have "\<not> list_all2 ci_eq v' (u @ extra)" if "v' \<in> set (scheme_variants p)" for v'
    using star_free_extension [OF v(1) _ v(2) _ assms(3), of v'] that
    unfolding star_free_variants [OF assms(1)] by blast
  then have "\<not> (\<exists>v\<in>set (scheme_variants p). list_all2 ci_eq v (u @ extra))"
    by blast
  then show ?thesis
    using match_text_url [OF assms(2), of p] w [of "u @ extra"] by simp
qed

text \<open>
  C2, as the program has it. A URL is a string without line feeds. The compiled pattern
  matches a URL exactly when the whole URL is an instance of one of the variants of the
  pattern. When the pattern does not end in \<open>*\<close>, none of its variants does, every match
  ends at the end of the URL, and a URL that carries further characters is rejected unless
  it is itself an instance of a variant. A pattern without any \<open>*\<close> matches only the URLs
  that are one of its variants letter for letter, up to case, and rejects every URL that
  adds characters to one it matches. When the pattern ends in \<open>*\<close>, every extension of a
  string that matches also matches.
\<close>

theorem scheme_to_regex_end_anchor:
  "(LF \<notin> set u \<longrightarrow>
      re_match_text (scheme_to_regex p) u = Some (\<exists>v\<in>set (scheme_variants p). wild_match v u))
   \<and> (\<not> endswith p ''*'' \<longrightarrow> (\<forall>v\<in>set (scheme_variants p). \<not> endswith v ''*''))
   \<and> (\<not> endswith p ''*'' \<and> LF \<notin> set u \<longrightarrow>
        (\<forall>c. re_compile (scheme_to_regex p) = Some c \<longrightarrow> set (m_item (prog c) u) \<subseteq> {[]}))
   \<and> (\<not> endswith p ''*'' \<and> LF \<notin> set (u @ extra)
        \<and> (\<forall>v\<in>set (scheme_variants p). \<not> wild_match v (u @ extra)) \<longrightarrow>
        re_match_text (scheme_to_regex p) (u @ extra) = Some False)
   \<and> (CHR ''*'' \<notin> set p \<and> LF \<notin> set u \<longrightarrow>
        re_match_text (scheme_to_regex p) u = Some (\<exists>v\<in>set (scheme_variants p). list_all2 ci_eq v u))
   \<and> (endswith p ''*'' \<and> re_match_text (scheme_to_regex p) u = Some True \<longrightarrow>
        re_match_text (scheme_to_regex p) (u @ extra) = Some True)
   \<and> (CHR ''*'' \<notin> set p \<and> LF \<notin> set (u @ extra) \<and> extra \<noteq> []
        \<and> re_match_text (scheme_to_regex p) u = Some True \<longrightarrow>
        re_match_text (scheme_to_regex p) (u @ extra) = Some False)"
proof -
  have 1: "re_match_text (scheme_to_regex p) u = Some (\<exists>v\<in>set (scheme_variants p). wild_match v u)"
    if "LF \<notin> set u"
    by (rule match_text_url [OF that])
  have 2: "\<forall>v\<in>set (scheme_variants p). \<not> endswith v ''*''" if "\<not> endswith p ''*''"
    using that variants_end_alike by blast
  have 3: "\<forall>c. re_compile (scheme_to_regex p) = Some c \<longrightarrow> set (m_item (prog c) u) \<subseteq> {[]}"
    if "\<not> endswith p ''*''" "LF \<notin> set u"
    using scheme_remainders [OF that] by (simp add: compile_scheme del: m_item.simps)
  have 4: "re_match_text (scheme_to_regex p) (u @ extra) = Some False"
    if "LF \<notin> set (u @ extra)" "\<forall>v\<in>set (scheme_variants p). \<not> wild_match v (u @ extra)"
    using match_text_url [OF that(1), of p] that(2) by simp
  have 5: "re_match_text (scheme_to_regex p) u = Some (\<exists>v\<in>set (scheme_variants p). list_all2 ci_eq v u)"
    if "CHR ''*'' \<notin> set p" "LF \<notin> set u"
  proof -
    have "(\<exists>v\<in>set (scheme_variants p). wild_match v u)
        \<longleftrightarrow> (\<exists>v\<in>set (scheme_variants p). list_all2 ci_eq v u)"
      using variants_no_star [OF that(1)] wild_no_star unfolding wild_match_def by blast
    then show ?thesis using match_text_url [OF that(2), of p] by simp
  qed
  have 6: "re_match_text (scheme_to_regex p) (u @ extra) = Some True"
    if "endswith p ''*''" "re_match_text (scheme_to_regex p) u = Some True"
  proof -
    from that(2) obtain v where v: "v \<in> set (scheme_variants p)" "variant_accepts v u"
      unfolding match_text_scheme by auto
    have "endswith v ''*''" using variants_end_alike [OF v(1)] that(1) by simp
    then have "variant_accepts v (u @ extra)"
      using variant_accepts_open v(2) by blast
    then show ?thesis
      unfolding match_text_scheme using v(1) by auto
  qed
  have 7: "re_match_text (scheme_to_regex p) (u @ extra) = Some False"
    if "CHR ''*'' \<notin> set p" "LF \<notin> set (u @ extra)" "extra \<noteq> []"
      "re_match_text (scheme_to_regex p) u = Some True"
    by (rule star_free_rejects_extension [OF that])
  show ?thesis
    using 1 2 3 4 5 6 7 by blast
qed

lemma variants_plain_https:
  "scheme_variants ''https://example.com/watch'' =
     [''https://example.com/watch'', ''http://example.com/watch'']"
  by (simp add: scheme_variants_def Let_def swap_scheme_def dict_fromkeys_def)

lemma variants_open_https:
  "scheme_variants ''https://example.com/watch*'' =
     [''https://example.com/watch*'', ''http://example.com/watch*'']"
  by (simp add: scheme_variants_def Let_def swap_scheme_def dict_fromkeys_def)

lemma ci_eq_simps [simp]: "ci_eq c c"
  by (simp add: ci_eq_def)

lemma LF_not_in:
  "LF \<notin> set ''https://example.com/watch''"
  "LF \<notin> set ''https://example.com/watch/extra''"
  by (simp_all add: LF_def)

theorem scheme_to_regex_end_anchor_witness:
  "re_match_text (scheme_to_regex ''https://example.com/watch'') ''https://example.com/watch'' = Some True
   \<and> re_match_text (scheme_to_regex ''https://example.com/watch'') ''https://example.com/watch/extra''
       = Some False
   \<and> re_match_text (scheme_to_regex ''https://example.com/watch'')
       (''https://example.com/watch'' @ ''/extra'') = Some False
   \<and> re_match_text (scheme_to_regex ''https://example.com/watch*'') ''https://example.com/watch/extra''
       = Some True"
proof -
  let ?u = "''https://example.com/watch''"
  note plain = scheme_to_regex_end_anchor [of ?u ?u "[]"]
  note extended = scheme_to_regex_end_anchor [of ?u ?u "''/extra''"]
  note opened = scheme_to_regex_end_anchor [of ?u "''https://example.com/watch*''" "[]"]
  note opened_extended = scheme_to_regex_end_anchor [of ?u "''https://example.com/watch*''" "''/extra''"]
  have a: "re_match_text (scheme_to_regex ?u) ?u = Some True"
    using plain [THEN conjunct1, THEN mp, OF LF_not_in(1)]
    by (simp add: variants_plain_https wild_match_def)
  have no: "\<forall>v\<in>set (scheme_variants ?u). \<not> wild_match v (?u @ ''/extra'')"
    by (simp add: variants_plain_https wild_match_def ci_eq_def lower_char_def)
  have e: "\<not> endswith ?u ''*''" by (simp add: endswith_def)
  have l: "LF \<notin> set (?u @ ''/extra'')" using LF_not_in(2) by simp
  have b: "re_match_text (scheme_to_regex ?u) (?u @ ''/extra'') = Some False"
    using extended [THEN conjunct2, THEN conjunct2, THEN conjunct2, THEN conjunct1, THEN mp,
        OF conjI [OF e conjI [OF l no]]] .
  have s: "CHR ''*'' \<notin> set ?u" by simp
  have x: "''/extra'' \<noteq> []" by simp
  have b': "re_match_text (scheme_to_regex ?u) (?u @ ''/extra'') = Some False"
    using extended [THEN conjunct2, THEN conjunct2, THEN conjunct2, THEN conjunct2,
        THEN conjunct2, THEN conjunct2, THEN mp, OF conjI [OF s conjI [OF l conjI [OF x a]]]] .
  have c0: "re_match_text (scheme_to_regex ''https://example.com/watch*'') ?u = Some True"
    using opened [THEN conjunct1, THEN mp, OF LF_not_in(1)]
    by (simp add: variants_open_https wild_match_def)
  have o: "endswith ''https://example.com/watch*'' ''*''" by (simp add: endswith_def)
  have c: "re_match_text (scheme_to_regex ''https://example.com/watch*'') (?u @ ''/extra'') = Some True"
    using opened_extended [THEN conjunct2, THEN conjunct2, THEN conjunct2, THEN conjunct2,
        THEN conjunct2, THEN conjunct1, THEN mp, OF conjI [OF o c0]] .
  have b2: "re_match_text (scheme_to_regex ?u) ''https://example.com/watch/extra'' = Some False"
    using b by simp
  have c2: "re_match_text (scheme_to_regex ''https://example.com/watch*'')
      ''https://example.com/watch/extra'' = Some True"
    using c by simp
  show ?thesis using a b2 b' c2 by (intro conjI)
qed

text \<open>
  C2 fails as stated: the pattern \<open>https://*.example.com/watch\<close> does not end in \<open>*\<close>
  and matches \<open>https://a.example.com/watch\<close>, and it also matches that URL followed by
  \<open>/extra/b.example.com/watch\<close>, because the \<open>*\<close> inside the pattern takes up the
  added characters.
\<close>

theorem inner_wildcard_extension_counterexample:
  "\<not> endswith ''https://*.example.com/watch'' ''*''
   \<and> re_match_text (scheme_to_regex ''https://*.example.com/watch'') ''https://a.example.com/watch''
       = Some True
   \<and> re_match_text (scheme_to_regex ''https://*.example.com/watch'')
       (''https://a.example.com/watch'' @ ''/extra/b.example.com/watch'') = Some True"
proof -
  let ?p = "''https://*.example.com/watch''"
  have e: "\<not> endswith ?p ''*''" by (simp add: endswith_def)
  have l1: "LF \<notin> set ''https://a.example.com/watch''" by (simp add: LF_def)
  have l2: "LF \<notin> set (''https://a.example.com/watch'' @ ''/extra/b.example.com/watch'')"
    by (simp add: LF_def)
  have w1: "wild_match ?p ''https://a.example.com/watch''"
    by (simp add: wild_match_def)
  have w2: "wild_match ?p (''https://a.example.com/watch'' @ ''/extra/b.example.com/watch'')"
    by (simp add: wild_match_def)
  have a: "re_match_text (scheme_to_regex ?p) ''https://a.example.com/watch'' = Some True"
    unfolding match_text_url [OF l1] using scheme_in_variants [of ?p] w1 by blast
  have b: "re_match_text (scheme_to_regex ?p)
       (''https://a.example.com/watch'' @ ''/extra/b.example.com/watch'') = Some True"
    unfolding match_text_url [OF l2] using scheme_in_variants [of ?p] w2 by blast
  show ?thesis using e a b by (intro conjI)
qed

text \<open>
  The one string with a line feed that an end-anchored pattern accepts beyond its
  instances: an instance followed by a single final line feed, before which \<open>$\<close> matches.
\<close>

lemma dollar_before_final_line_feed:
  "re_match_text (scheme_to_regex ''https://example.com/watch'') (''https://example.com/watch'' @ [LF])
     = Some True"
proof -
  let ?p = "''https://example.com/watch''"
  have "wild not_LF ?p ?p"
    by (simp add: not_LF_def)
  then have "?p @ [LF] = ?p @ [LF] \<and> wild not_LF ?p ?p \<and> (endswith ?p ''*'' \<or> [LF] = [] \<or> [LF] = [LF])"
    by simp
  then have "variant_accepts ?p (?p @ [LF])"
    unfolding variant_accepts_def by blast
  then have "\<exists>v\<in>set (scheme_variants ?p). variant_accepts v (?p @ [LF])"
    using scheme_in_variants [of ?p] by blast
  then show ?thesis
    by (simp only: match_text_scheme)
qed

section \<open>Wildcard subdomains\<close>

lemma complete_endpoint_in_map:
  assumes "is_complete e" and "e \<in> set (all_endpoints providers)"
  shows "\<exists>m. compile_oembed_providers providers = Inr m \<and> endpoint_key e \<in> fst ` set m"
proof -
  have "endpoint_key e \<in> fst ` set (foldl store [] (all_endpoints providers))"
    unfolding foldl_store_keys using assms by blast
  then show ?thesis
    by (simp add: compile_foldl)
qed

text \<open>
  C1. Take a pattern \<open>scheme://*.rest\<close> whose scheme is \<open>http\<close> or \<open>https\<close>, and a
  URL (a string without line feeds) that is an instance, up to the case of its letters, of
  the bare-host pattern \<open>scheme'://rest\<close> or of the subdomain pattern
  \<open>scheme'://*.rest\<close>, for \<open>scheme'\<close> either of \<open>http\<close> and \<open>https\<close>. Then the
  compiled text of \<open>scheme_to_regex\<close> matches the URL, and so does the matcher that
  \<open>compile_oembed_providers\<close> registers for any endpoint that lists the pattern and has
  a URL: the map is built without error, holds that matcher, and
  \<open>get_oembed_endpoint\<close> finds an endpoint for the URL.
\<close>

theorem wildcard_subdomain_matches:
  assumes "sch = ''http'' \<or> sch = ''https''"
    and "sch' = ''http'' \<or> sch' = ''https''"
    and "LF \<notin> set u"
    and "wild_match (sch' @ ''://'' @ rest) u \<or> wild_match (sch' @ ''://*.'' @ rest) u"
  shows "re_match_text (scheme_to_regex (sch @ ''://*.'' @ rest)) u = Some True
     \<and> (e_schemes e = Some schemes \<and> sch @ ''://*.'' @ rest \<in> set schemes
          \<and> e_url e = Some t \<and> t \<noteq> [] \<and> e \<in> set (all_endpoints providers) \<longrightarrow>
          (\<exists>m. compile_oembed_providers providers = Inr m
             \<and> (\<exists>(c, ep)\<in>set m. pattern c = endpoint_regex schemes \<and> re_match c u)
             \<and> get_oembed_endpoint m u \<noteq> None))"
proof -
  let ?p = "sch @ ''://*.'' @ rest"
  have vs: "set (scheme_variants ?p) =
      {''https://*.'' @ rest, ''https://'' @ rest, ''http://*.'' @ rest, ''http://'' @ rest}"
    by (rule wildcard_variants [OF assms(1)])
  have bare: "sch' @ ''://'' @ rest \<in> set (scheme_variants ?p)"
    using assms(2)
  proof
    assume "sch' = ''http''"
    then have "sch' @ ''://'' @ rest = ''http://'' @ rest" by simp
    then show ?thesis unfolding vs by blast
  next
    assume "sch' = ''https''"
    then have "sch' @ ''://'' @ rest = ''https://'' @ rest" by simp
    then show ?thesis unfolding vs by blast
  qed
  have sub: "sch' @ ''://*.'' @ rest \<in> set (scheme_variants ?p)"
    using assms(2)
  proof
    assume "sch' = ''http''"
    then have "sch' @ ''://*.'' @ rest = ''http://*.'' @ rest" by simp
    then show ?thesis unfolding vs by blast
  next
    assume "sch' = ''https''"
    then have "sch' @ ''://*.'' @ rest = ''https://*.'' @ rest" by simp
    then show ?thesis unfolding vs by blast
  qed
  obtain v where v: "v \<in> set (scheme_variants ?p)" "wild_match v u"
    using assms(4) bare sub by blast
  have 1: "re_match_text (scheme_to_regex ?p) u = Some True"
    using match_text_url [OF assms(3), of ?p] v by auto
  have 2: "\<exists>m. compile_oembed_providers providers = Inr m
             \<and> (\<exists>(c, ep)\<in>set m. pattern c = endpoint_regex schemes \<and> re_match c u)
             \<and> get_oembed_endpoint m u \<noteq> None"
    if e: "e_schemes e = Some schemes" "?p \<in> set schemes" "e_url e = Some t" "t \<noteq> []"
      "e \<in> set (all_endpoints providers)"
  proof -
    have ne: "schemes \<noteq> []" using e(2) by auto
    have c: "is_complete e"
      using e ne by (simp add: is_complete_def)
    obtain m where m: "compile_oembed_providers providers = Inr m" "endpoint_key e \<in> fst ` set m"
      using complete_endpoint_in_map [OF c e(5)] by blast
    have "variant_accepts v u"
      using variant_accepts_url [OF assms(3)] v(2) by simp
    then have k: "re_match (endpoint_key e) u"
      using match_endpoint_key [OF c e(1)] e(2) v(1) by blast
    have pk: "pattern (endpoint_key e) = endpoint_regex schemes"
      using e(1) by (simp add: endpoint_key_def)
    obtain ep where ep: "(endpoint_key e, ep) \<in> set m"
      using m(2) by auto
    then have "\<exists>(c, ep)\<in>set m. pattern c = endpoint_regex schemes \<and> re_match c u"
      using k pk by blast
    moreover have "get_oembed_endpoint m u \<noteq> None"
      unfolding get_oembed_endpoint_None using ep k by blast
    ultimately show ?thesis using m(1) by blast
  qed
  show ?thesis using 1 2 by blast
qed

lemma ci_eq_code: "ci_eq a b \<longleftrightarrow> lower_code (of_char a) = lower_code (of_char b)"
proof -
  have l: "lower_char c = char_of (lower_code (of_char c))" for c
    by (simp add: lower_char_def lower_code_def Let_def)
  have b: "lower_code (of_char c) < 256" for c :: char
  proof -
    have "(of_char c :: nat) < 256" by simp
    then show ?thesis by (auto simp: lower_code_def)
  qed
  have "char_of (lower_code (of_char a)) = (char_of (lower_code (of_char b)) :: char)
      \<longleftrightarrow> lower_code (of_char a) = lower_code (of_char b)"
    using b [of a] b [of b] by (simp add: char_of_eq_iff take_bit_nat_eq_self)
  then show ?thesis
    by (simp add: ci_eq_def l)
qed

lemma wildcard_endpoint_listed:
  "wildcard_endpoint \<in> set (all_endpoints partial_providers)"
  by (simp add: all_endpoints_def partial_providers_def)

theorem wildcard_subdomain_matches_witness:
  "re_match_text (scheme_to_regex ''https://*.example.com/watch*'') ''HTTP://EXAMPLE.COM/watch?x=1''
     = Some True
   \<and> re_match_text (scheme_to_regex ''https://*.example.com/watch*'') ''https://www.Example.com/watch''
     = Some True
   \<and> (\<exists>m. compile_oembed_providers partial_providers = Inr m
         \<and> get_oembed_endpoint m ''HTTP://EXAMPLE.COM/watch?x=1'' \<noteq> None)"
proof -
  let ?U = "''HTTP://EXAMPLE.COM/watch?x=1''"
  let ?V = "''https://www.Example.com/watch''"
  have s1: "''https'' = ''http'' \<or> ''https'' = ''https''" by simp
  have s2: "''http'' = ''http'' \<or> ''http'' = ''https''" by simp
  have l1: "LF \<notin> set ?U" by (simp add: LF_def)
  have l2: "LF \<notin> set ?V" by (simp add: LF_def)
  have "wild_match (''http'' @ ''://'' @ ''example.com/watch*'') ?U"
    by (simp add: wild_match_def ci_eq_code lower_code_def)
  then have d1: "wild_match (''http'' @ ''://'' @ ''example.com/watch*'') ?U
      \<or> wild_match (''http'' @ ''://*.'' @ ''example.com/watch*'') ?U" ..
  have "wild_match (''https'' @ ''://*.'' @ ''example.com/watch*'') ?V"
    by (simp add: wild_match_def ci_eq_code lower_code_def)
  then have d2: "wild_match (''https'' @ ''://'' @ ''example.com/watch*'') ?V
      \<or> wild_match (''https'' @ ''://*.'' @ ''example.com/watch*'') ?V" ..
  have p: "''https'' @ ''://*.'' @ ''example.com/watch*'' = ''https://*.example.com/watch*''"
    by simp
  note t1 = wildcard_subdomain_matches [OF s1 s2 l1 d1, of wildcard_endpoint
      "[''https://*.example.com/watch*'']" "''https://example.com/oembed.{format}''" partial_providers]
  note t2 = wildcard_subdomain_matches [OF s1 s1 l2 d2]
  have a: "re_match_text (scheme_to_regex ''https://*.example.com/watch*'') ?U = Some True"
    using t1 [THEN conjunct1] unfolding p .
  have b: "re_match_text (scheme_to_regex ''https://*.example.com/watch*'') ?V = Some True"
    using t2 [THEN conjunct1] unfolding p .
  have e1: "e_schemes wildcard_endpoint = Some [''https://*.example.com/watch*'']"
    by (simp add: wildcard_endpoint_def)
  have e2: "''https'' @ ''://*.'' @ ''example.com/watch*'' \<in> set [''https://*.example.com/watch*'']"
    by simp
  have e3: "e_url wildcard_endpoint = Some ''https://example.com/oembed.{format}''"
    by (simp add: wildcard_endpoint_def)
  have e4: "''https://example.com/oembed.{format}'' \<noteq> []"
    by simp
  have "\<exists>m. compile_oembed_providers partial_providers = Inr m
      \<and> (\<exists>(c, ep)\<in>set m. pattern c = endpoint_regex [''https://*.example.com/watch*'']
            \<and> re_match c ?U)
      \<and> get_oembed_endpoint m ?U \<noteq> None"
    using t1 [THEN conjunct2] e1 e2 e3 e4 wildcard_endpoint_listed by blast
  then have c: "\<exists>m. compile_oembed_providers partial_providers = Inr m
      \<and> get_oembed_endpoint m ?U \<noteq> None"
    by blast
  show ?thesis using a b c by blast
qed

section \<open>Partial catalogue entries\<close>

text \<open>
  C7. An endpoint without a pattern list, with an empty pattern list or without a URL
  leaves the endpoint map as it is. For every catalogue the map is built without an error;
  it is the map built from the complete endpoints alone, its keys are the compiled
  patterns of the complete endpoints, and each of its values is the URL of a complete
  endpoint with every \<open>{format}\<close> replaced by \<open>json\<close>, so that no \<open>{format}\<close> is left
  in it.
\<close>

theorem compile_skips_partial_endpoints:
  "((e_schemes endpoint = None \<or> e_schemes endpoint = Some [] \<or> e_url endpoint = None) \<longrightarrow>
      register_endpoint endpoint_map endpoint = Inr endpoint_map)
   \<and> (\<exists>m. compile_oembed_providers providers = Inr m
         \<and> register_endpoints [] (filter is_complete (all_endpoints providers)) = Inr m
         \<and> fst ` set m = endpoint_key ` {e \<in> set (all_endpoints providers). is_complete e}
         \<and> (\<forall>(c, ep)\<in>set m.
               \<not> contains ep ''{format}''
               \<and> (\<exists>e\<in>set (all_endpoints providers). \<exists>t.
                     is_complete e \<and> e_url e = Some t \<and> c = endpoint_key e
                     \<and> ep = str_replace ''{format}'' ''json'' t)))"
proof -
  let ?es = "all_endpoints providers"
  let ?m = "foldl store [] ?es"
  have 1: "register_endpoint endpoint_map endpoint = Inr endpoint_map"
    if "e_schemes endpoint = None \<or> e_schemes endpoint = Some [] \<or> e_url endpoint = None"
    using that by (intro register_endpoint_incomplete) (auto simp: is_complete_def)
  have 2: "compile_oembed_providers providers = Inr ?m"
    by (rule compile_foldl)
  have 3: "register_endpoints [] (filter is_complete ?es) = Inr ?m"
    by (simp add: register_endpoints_foldl foldl_store_filter)
  have 4: "fst ` set ?m = endpoint_key ` {e \<in> set ?es. is_complete e}"
    by (simp add: foldl_store_keys)
  have 5: "\<not> contains ep ''{format}''
      \<and> (\<exists>e\<in>set ?es. \<exists>t. is_complete e \<and> e_url e = Some t \<and> c = endpoint_key e
            \<and> ep = str_replace ''{format}'' ''json'' t)"
    if mem: "(c, ep) \<in> set ?m" for c ep
  proof -
    obtain e where e: "e \<in> set ?es" "is_complete e" "c = endpoint_key e" "ep = endpoint_value e"
      using foldl_store_entries [OF mem] by auto
    obtain t where t: "e_url e = Some t"
      using e(2) by (auto simp: is_complete_def)
    have v: "ep = str_replace ''{format}'' ''json'' t"
      using e(4) t by (simp add: endpoint_value_def)
    then have "\<not> contains ep ''{format}''"
      using no_format_left by simp
    then show ?thesis using e t v by blast
  qed
  have "\<forall>(c, ep)\<in>set ?m.
      \<not> contains ep ''{format}''
      \<and> (\<exists>e\<in>set ?es. \<exists>t. is_complete e \<and> e_url e = Some t \<and> c = endpoint_key e
            \<and> ep = str_replace ''{format}'' ''json'' t)"
    using 5 by blast
  then show ?thesis
    using 1 2 3 4 by blast
qed

lemma format_replaced_example:
  "str_replace ''{format}'' ''json'' ''https://example.com/oembed.{format}'' =
   ''https://example.com/oembed.json''"
  by code_simp

lemma format_absent_first:
  "str_replace ''{format}'' ''json'' ''https://first.example.com/oembed'' =
   ''https://first.example.com/oembed''"
  by code_simp

lemma format_absent_second:
  "str_replace ''{format}'' ''json'' ''https://second.example.com/oembed'' =
   ''https://second.example.com/oembed''"
  by code_simp

lemma partial_providers_complete:
  "filter is_complete (all_endpoints partial_providers) = [wildcard_endpoint]"
  by (simp add: all_endpoints_def partial_providers_def is_complete_def wildcard_endpoint_def)

lemma wildcard_endpoint_value:
  "endpoint_value wildcard_endpoint = ''https://example.com/oembed.json''"
  using format_replaced_example by (simp add: endpoint_value_def wildcard_endpoint_def)

theorem compile_skips_partial_endpoints_witness:
  "register_endpoint [] \<lparr>e_schemes = None, e_url = Some ''https://invalid.example.com/oembed''\<rparr> = Inr []
   \<and> compile_oembed_providers partial_providers =
       Inr [(endpoint_key wildcard_endpoint, ''https://example.com/oembed.json'')]
   \<and> \<not> contains ''https://example.com/oembed.json'' ''{format}''"
proof -
  let ?e = "\<lparr>e_schemes = None, e_url = Some ''https://invalid.example.com/oembed''\<rparr>"
  note t = compile_skips_partial_endpoints [of ?e "[]" partial_providers]
  have "e_schemes ?e = None \<or> e_schemes ?e = Some [] \<or> e_url ?e = None"
    by simp
  then have a: "register_endpoint [] ?e = Inr []"
    using t [THEN conjunct1] by (rule rev_mp)
  from t [THEN conjunct2] obtain m where M:
    "compile_oembed_providers partial_providers = Inr m
     \<and> register_endpoints [] (filter is_complete (all_endpoints partial_providers)) = Inr m
     \<and> fst ` set m = endpoint_key ` {e \<in> set (all_endpoints partial_providers). is_complete e}
     \<and> (\<forall>(c, ep)\<in>set m.
           \<not> contains ep ''{format}''
           \<and> (\<exists>e\<in>set (all_endpoints partial_providers). \<exists>t.
                 is_complete e \<and> e_url e = Some t \<and> c = endpoint_key e
                 \<and> ep = str_replace ''{format}'' ''json'' t))" ..
  note m = M [THEN conjunct1] M [THEN conjunct2, THEN conjunct1]
    M [THEN conjunct2, THEN conjunct2, THEN conjunct2]
  have c: "is_complete wildcard_endpoint"
    by (simp add: is_complete_def wildcard_endpoint_def)
  have "register_endpoints [] [wildcard_endpoint] =
      Inr [(endpoint_key wildcard_endpoint, ''https://example.com/oembed.json'')]"
    using c by (simp add: register_endpoints_foldl store_def wildcard_endpoint_value)
  then have me: "m = [(endpoint_key wildcard_endpoint, ''https://example.com/oembed.json'')]"
    using m(2) unfolding partial_providers_complete by simp
  have "(endpoint_key wildcard_endpoint, ''https://example.com/oembed.json'') \<in> set m"
    unfolding me by simp
  with m(3) have "case (endpoint_key wildcard_endpoint, ''https://example.com/oembed.json'') of
      (c, ep) \<Rightarrow> \<not> contains ep ''{format}''
        \<and> (\<exists>e\<in>set (all_endpoints partial_providers). \<exists>t.
              is_complete e \<and> e_url e = Some t \<and> c = endpoint_key e
              \<and> ep = str_replace ''{format}'' ''json'' t)"
    by (rule bspec)
  then have n: "\<not> contains ''https://example.com/oembed.json'' ''{format}''"
    unfolding prod.case by (rule conjunct1)
  show ?thesis using a m(1) n unfolding me by (intro conjI)
qed

section \<open>Two endpoints with the same patterns\<close>

lemma same_key: "endpoint_key second_endpoint = endpoint_key first_endpoint"
  by (simp add: endpoint_key_def first_endpoint_def second_endpoint_def)

lemma first_complete: "is_complete first_endpoint"
  by (simp add: is_complete_def first_endpoint_def)

lemma second_complete: "is_complete second_endpoint"
  by (simp add: is_complete_def second_endpoint_def)

lemma first_value: "endpoint_value first_endpoint = ''https://first.example.com/oembed''"
  using format_absent_first by (simp add: endpoint_value_def first_endpoint_def)

lemma second_value: "endpoint_value second_endpoint = ''https://second.example.com/oembed''"
  using format_absent_second by (simp add: endpoint_value_def second_endpoint_def)

lemma first_key_matches: "re_match (endpoint_key first_endpoint) ''https://example.com/video/123''"
proof -
  let ?u = "''https://example.com/video/123''"
  have l: "LF \<notin> set ?u" by (simp add: LF_def)
  have "wild_match ''https://example.com/*'' ?u"
    by (simp add: wild_match_def)
  then have "variant_accepts ''https://example.com/*'' ?u"
    using variant_accepts_url [OF l] by blast
  moreover have "''https://example.com/*'' \<in> set (scheme_variants ''https://example.com/*'')"
    by (rule scheme_in_variants)
  moreover have "e_schemes first_endpoint = Some [''https://example.com/*'']"
    by (simp add: first_endpoint_def)
  ultimately show ?thesis
    using match_endpoint_key [OF first_complete, of "[''https://example.com/*'']" ?u] by auto
qed

text \<open>
  C3, at two providers whose endpoints list the same patterns. Registered alone, the first
  provider gives its own endpoint for the URL. Registered before the second, it gives the
  endpoint of the second: the two compiled patterns are the same dictionary key, and the
  second store replaces the URL of the first.
\<close>

theorem same_patterns_second_provider_wins:
  "compile_oembed_providers [\<lparr>p_endpoints = Some [first_endpoint]\<rparr>] =
     Inr [(endpoint_key first_endpoint, ''https://first.example.com/oembed'')]
   \<and> get_oembed_endpoint [(endpoint_key first_endpoint, ''https://first.example.com/oembed'')]
         ''https://example.com/video/123'' = Some ''https://first.example.com/oembed''
   \<and> compile_oembed_providers same_pattern_providers =
     Inr [(endpoint_key first_endpoint, ''https://second.example.com/oembed'')]
   \<and> get_oembed_endpoint [(endpoint_key first_endpoint, ''https://second.example.com/oembed'')]
         ''https://example.com/video/123'' = Some ''https://second.example.com/oembed''"
proof -
  have 1: "compile_oembed_providers [\<lparr>p_endpoints = Some [first_endpoint]\<rparr>] =
      Inr [(endpoint_key first_endpoint, ''https://first.example.com/oembed'')]"
    by (simp add: compile_foldl all_endpoints_def store_def first_complete first_value)
  have 2: "compile_oembed_providers same_pattern_providers =
      Inr [(endpoint_key first_endpoint, ''https://second.example.com/oembed'')]"
    by (simp add: compile_foldl all_endpoints_def same_pattern_providers_def store_def
        first_complete second_complete first_value second_value same_key)
  show ?thesis
    using 1 2 first_key_matches by simp
qed

section \<open>Reading the response\<close>

lemma get_oembed_data_answered:
  "ok r \<Longrightarrow> body_json r = Some data \<Longrightarrow>
   fst (get_oembed_data m (answering r) url mw mh) =
     (case get_oembed_endpoint m url of None \<Rightarrow> Inr None | Some ep \<Rightarrow> oembed_result data)"
  by (simp add: get_oembed_data_def Let_def answering_def split: option.splits)

lemma oembed_result_other:
  "dict_get kvs ''type'' (JString '''') \<noteq> JString ''photo'' \<Longrightarrow>
   dict_get kvs ''type'' (JString '''') \<noteq> JString ''video'' \<Longrightarrow>
   oembed_result (JObject kvs) = Inr None"
  by (simp add: oembed_result_def Let_def)

lemma oembed_result_photo_no_image:
  "dict_get kvs ''type'' (JString '''') = JString ''photo'' \<Longrightarrow>
   \<not> truthy (dict_get kvs ''url'' (dict_get kvs ''image'' JNull)) \<Longrightarrow>
   oembed_result (JObject kvs) = Inr None"
  by (simp add: oembed_result_def Let_def)

lemma oembed_result_photo:
  "dict_get kvs ''type'' (JString '''') = JString ''photo'' \<Longrightarrow>
   truthy (dict_get kvs ''url'' (dict_get kvs ''image'' JNull)) \<Longrightarrow>
   oembed_result (JObject kvs) =
     Inr (Some \<lparr>data_type = ''photo'',
                 data_image = dict_get kvs ''url'' (dict_get kvs ''image'' JNull),
                 data_html = None,
                 data_title = dict_get kvs ''title'' JNull,
                 data_description = dict_get kvs ''description'' JNull\<rparr>)"
  by (simp add: oembed_result_def Let_def)

lemma oembed_result_video_missing:
  "dict_get kvs ''type'' (JString '''') = JString ''video'' \<Longrightarrow>
   \<not> truthy (dict_get kvs ''html'' (JString '''')) \<or> \<not> truthy (dict_get kvs ''thumbnail_url'' JNull) \<Longrightarrow>
   oembed_result (JObject kvs) = Inr None"
  by (auto simp: oembed_result_def Let_def)

lemma oembed_result_Some:
  assumes "oembed_result (JObject kvs) = Inr (Some d)"
  shows "(data_type d = ''photo'' \<and> dict_get kvs ''type'' (JString '''') = JString ''photo''
          \<and> data_image d = dict_get kvs ''url'' (dict_get kvs ''image'' JNull)
          \<and> truthy (dict_get kvs ''url'' (dict_get kvs ''image'' JNull)))
       \<or> (data_type d = ''video'' \<and> dict_get kvs ''type'' (JString '''') = JString ''video''
          \<and> data_image d = dict_get kvs ''thumbnail_url'' JNull
          \<and> truthy (dict_get kvs ''thumbnail_url'' JNull)
          \<and> (\<exists>h. dict_get kvs ''html'' (JString '''') = JString h \<and> h \<noteq> []
                \<and> data_html d = Some (strip_cdata h)))"
proof (cases "dict_get kvs ''type'' (JString '''') = JString ''photo''
    \<and> truthy (dict_get kvs ''url'' (dict_get kvs ''image'' JNull))")
  case True
  then have "d = \<lparr>data_type = ''photo'',
                 data_image = dict_get kvs ''url'' (dict_get kvs ''image'' JNull),
                 data_html = None,
                 data_title = dict_get kvs ''title'' JNull,
                 data_description = dict_get kvs ''description'' JNull\<rparr>"
    using assms oembed_result_photo [of kvs] by simp
  then show ?thesis using True by simp
next
  case False
  show ?thesis
  proof (cases "dict_get kvs ''type'' (JString '''') = JString ''video''
      \<and> truthy (dict_get kvs ''html'' (JString '''')) \<and> truthy (dict_get kvs ''thumbnail_url'' JNull)")
    case True
    then obtain h where h: "dict_get kvs ''html'' (JString '''') = JString h"
      using assms False
      by (cases "dict_get kvs ''html'' (JString '''')") (auto simp: oembed_result_def Let_def)
    then have "h \<noteq> []" using True by auto
    moreover have "d = \<lparr>data_type = ''video'', data_image = dict_get kvs ''thumbnail_url'' JNull,
                 data_html = Some (strip_cdata h),
                 data_title = dict_get kvs ''title'' JNull,
                 data_description = dict_get kvs ''description'' JNull\<rparr>"
      using assms False True h by (auto simp: oembed_result_def Let_def)
    ultimately show ?thesis using True h by simp
  next
    case F2: False
    have "oembed_result (JObject kvs) = Inr None"
      using False F2 by (auto simp: oembed_result_def Let_def)
    then show ?thesis using assms by simp
  qed
qed

text \<open>
  Responses whose body is a JSON object. Let the session answer with a response that is
  \<open>ok\<close> and whose body decodes to a JSON object. \<open>get_oembed_data\<close> returns \<open>None\<close> when the value under \<open>type\<close> is
  neither \<open>photo\<close> nor \<open>video\<close>, in particular when the key is missing; when it is
  \<open>photo\<close> and there is no image (the value under \<open>url\<close>, or under \<open>image\<close> when
  \<open>url\<close> is absent, is missing or empty); and when it is \<open>video\<close> and the markup under
  \<open>html\<close> or the URL under \<open>thumbnail_url\<close> is missing or empty. A result other than
  \<open>None\<close> is a photo that carries that image, or a video that carries the thumbnail as
  its image and the unwrapped markup of a response whose \<open>html\<close> was a non-empty string.
\<close>

theorem get_oembed_data_kinds:
  assumes "ok response" and "body_json response = Some (JObject kvs)"
  shows
    "let result = fst (get_oembed_data endpoint_map (answering response) url maxwidth maxheight);
         kind = dict_get kvs ''type'' (JString '''');
         image = dict_get kvs ''url'' (dict_get kvs ''image'' JNull);
         thumbnail = dict_get kvs ''thumbnail_url'' JNull;
         html = dict_get kvs ''html'' (JString '''')
     in (kind \<noteq> JString ''photo'' \<and> kind \<noteq> JString ''video'' \<longrightarrow> result = Inr None)
      \<and> (map_of kvs ''type'' = None \<longrightarrow> result = Inr None)
      \<and> (kind = JString ''photo'' \<and> \<not> truthy image \<longrightarrow> result = Inr None)
      \<and> (kind = JString ''video'' \<and> (\<not> truthy html \<or> \<not> truthy thumbnail) \<longrightarrow> result = Inr None)
      \<and> (\<forall>d. result = Inr (Some d) \<longrightarrow>
            (data_type d = ''photo'' \<and> kind = JString ''photo'' \<and> data_image d = image \<and> truthy image)
            \<or> (data_type d = ''video'' \<and> kind = JString ''video'' \<and> data_image d = thumbnail
                \<and> truthy thumbnail
                \<and> (\<exists>h. html = JString h \<and> h \<noteq> [] \<and> data_html d = Some (strip_cdata h))))"
proof -
  let ?result = "fst (get_oembed_data endpoint_map (answering response) url maxwidth maxheight)"
  let ?kind = "dict_get kvs ''type'' (JString '''')"
  have r: "?result = Inr None \<or> ?result = oembed_result (JObject kvs)"
    using get_oembed_data_answered [OF assms, of endpoint_map url maxwidth maxheight]
    by (auto split: option.splits)
  have 1: "?result = Inr None" if "?kind \<noteq> JString ''photo''" "?kind \<noteq> JString ''video''"
    using r oembed_result_other [OF that] by auto
  have 2: "?result = Inr None" if "map_of kvs ''type'' = None"
  proof -
    have "?kind = JString ''''" using that by (simp add: dict_get_def)
    then show ?thesis using 1 by simp
  qed
  have 3: "?result = Inr None"
    if "?kind = JString ''photo''" "\<not> truthy (dict_get kvs ''url'' (dict_get kvs ''image'' JNull))"
    using r oembed_result_photo_no_image [OF that] by auto
  have 4: "?result = Inr None"
    if "?kind = JString ''video''"
      "\<not> truthy (dict_get kvs ''html'' (JString '''')) \<or> \<not> truthy (dict_get kvs ''thumbnail_url'' JNull)"
    using r oembed_result_video_missing [OF that] by auto
  have 5: "(data_type d = ''photo'' \<and> ?kind = JString ''photo''
          \<and> data_image d = dict_get kvs ''url'' (dict_get kvs ''image'' JNull)
          \<and> truthy (dict_get kvs ''url'' (dict_get kvs ''image'' JNull)))
       \<or> (data_type d = ''video'' \<and> ?kind = JString ''video''
          \<and> data_image d = dict_get kvs ''thumbnail_url'' JNull
          \<and> truthy (dict_get kvs ''thumbnail_url'' JNull)
          \<and> (\<exists>h. dict_get kvs ''html'' (JString '''') = JString h \<and> h \<noteq> []
                \<and> data_html d = Some (strip_cdata h)))"
    if "?result = Inr (Some d)" for d
  proof -
    have "oembed_result (JObject kvs) = Inr (Some d)" using r that by auto
    then show ?thesis by (rule oembed_result_Some)
  qed
  show ?thesis
    unfolding Let_def using 1 2 3 4 5 by blast
qed

lemma first_map_finds:
  "get_oembed_endpoint first_map ''https://example.com/video/123'' = Some ''https://first.example.com/oembed''"
  using first_key_matches by (simp add: first_map_def)


theorem get_oembed_data_kinds_witness:
  "fst (get_oembed_data first_map (answering rich_response) ''https://example.com/video/123'' None None)
     = Inr None
   \<and> (\<exists>d. fst (get_oembed_data first_map (answering video_response) ''https://example.com/video/123''
                None None) = Inr (Some d)
          \<and> data_type d = ''video'' \<and> data_image d = JString ''T''
          \<and> data_html d = Some ''<iframe></iframe>'')"
proof -
  let ?u = "''https://example.com/video/123''"
  have ok1: "ok rich_response" by (simp add: ok_def rich_response_def)
  have b1: "body_json rich_response = Some (JObject [(''type'', JString ''rich''),
      (''title'', JString ''NASA''), (''html'', JString ''<p>test</p>'')])"
    by (simp add: rich_response_def)
  have a: "fst (get_oembed_data first_map (answering rich_response) ?u None None) = Inr None"
    using get_oembed_data_kinds [OF ok1 b1, of first_map ?u None None]
    by (simp add: Let_def dict_get_def)
  have ok2: "ok video_response" by (simp add: ok_def video_response_def)
  have b2: "body_json video_response = Some (JObject [(''type'', JString ''video''),
      (''thumbnail_url'', JString ''T''), (''html'', JString ''<![CDATA[<iframe></iframe>]]>'')])"
    by (simp add: video_response_def)
  have s: "strip_cdata ''<![CDATA[<iframe></iframe>]]>'' = ''<iframe></iframe>''"
    by (simp add: strip_cdata_def endswith_def py_slice_def)
  have v: "fst (get_oembed_data first_map (answering video_response) ?u None None) =
      Inr (Some \<lparr>data_type = ''video'', data_image = JString ''T'',
                  data_html = Some ''<iframe></iframe>'', data_title = JNull,
                  data_description = JNull\<rparr>)"
    using first_map_finds s
    by (simp add: get_oembed_data_def Let_def answering_def ok_def video_response_def
        oembed_result_def dict_get_def)
  have "data_type d = ''video'' \<and> data_image d = JString ''T'' \<and> data_html d = Some ''<iframe></iframe>''"
    if "fst (get_oembed_data first_map (answering video_response) ?u None None) = Inr (Some d)" for d
    using get_oembed_data_kinds [OF ok2 b2, of first_map ?u None None] that s
    by (auto simp: Let_def dict_get_def)
  then show ?thesis using a v by blast
qed

text \<open>
  C4. A response body that parses as JSON but is not an object makes \<open>get_oembed_data\<close>
  raise instead of returning \<open>None\<close>. The \<open>try\<close> block ends after \<open>response.json()\<close>;
  the first \<open>data.get\<close> comes after it, and a list or \<open>None\<close> has no \<open>get\<close>. For the
  URL \<open>https://example.com/video/123\<close>, which has a provider endpoint, a response with
  status 200 and body \<open>[]\<close>, and one with body \<open>null\<close>, both give \<open>AttributeError\<close>;
  neither body has a \<open>type\<close> field. The same URL with an object body of type
  \<open>rich\<close> gives \<open>None\<close>.
\<close>

theorem non_object_body_raises:
  "get_oembed_endpoint first_map ''https://example.com/video/123'' =
     Some ''https://first.example.com/oembed''
   \<and> ok array_response \<and> body_json array_response = Some (JArray [])
   \<and> fst (get_oembed_data first_map (answering array_response) ''https://example.com/video/123''
          None None) = Inl AttributeError
   \<and> ok null_response \<and> body_json null_response = Some JNull
   \<and> fst (get_oembed_data first_map (answering null_response) ''https://example.com/video/123''
          None None) = Inl AttributeError
   \<and> fst (get_oembed_data first_map (answering rich_response) ''https://example.com/video/123''
          None None) = Inr None"
proof -
  let ?u = "''https://example.com/video/123''"
  have ok1: "ok array_response" by (simp add: ok_def array_response_def)
  have b1: "body_json array_response = Some (JArray [])" by (simp add: array_response_def)
  have 1: "fst (get_oembed_data first_map (answering array_response) ?u None None)
      = Inl AttributeError"
    unfolding get_oembed_data_answered [OF ok1 b1] first_map_finds
    by (simp add: oembed_result_def)
  have ok2: "ok null_response" by (simp add: ok_def null_response_def)
  have b2: "body_json null_response = Some JNull" by (simp add: null_response_def)
  have 2: "fst (get_oembed_data first_map (answering null_response) ?u None None)
      = Inl AttributeError"
    unfolding get_oembed_data_answered [OF ok2 b2] first_map_finds
    by (simp add: oembed_result_def)
  have ok3: "ok rich_response" by (simp add: ok_def rich_response_def)
  have b3: "body_json rich_response = Some (JObject [(''type'', JString ''rich''),
      (''title'', JString ''NASA''), (''html'', JString ''<p>test</p>'')])"
    by (simp add: rich_response_def)
  have 3: "fst (get_oembed_data first_map (answering rich_response) ?u None None) = Inr None"
    unfolding get_oembed_data_answered [OF ok3 b3] first_map_finds
    by (simp add: oembed_result_def dict_get_def)
  show ?thesis
    using first_map_finds ok1 b1 1 ok2 b2 2 3 by (intro conjI)
qed

text \<open>
  C10. Let the session answer with a response that is \<open>ok\<close> and whose body decodes to
  an object of type \<open>photo\<close>. When the key \<open>url\<close> is present with an empty (falsy)
  value, \<open>get_oembed_data\<close> returns \<open>None\<close>, whatever the key \<open>image\<close> holds. When the
  key \<open>url\<close> is absent, the value under \<open>image\<close> is used: if it is not empty and the URL
  has a provider endpoint, the result is a photo with that image.
\<close>

theorem photo_empty_url_hides_image:
  assumes "ok response" and "body_json response = Some (JObject kvs)"
    and "dict_get kvs ''type'' (JString '''') = JString ''photo''"
  shows "(map_of kvs ''url'' = Some v \<and> \<not> truthy v \<longrightarrow>
            fst (get_oembed_data endpoint_map (answering response) url maxwidth maxheight) = Inr None)
       \<and> (map_of kvs ''url'' = None \<and> map_of kvs ''image'' = Some w \<and> truthy w
            \<and> get_oembed_endpoint endpoint_map url \<noteq> None \<longrightarrow>
            fst (get_oembed_data endpoint_map (answering response) url maxwidth maxheight) =
              Inr (Some \<lparr>data_type = ''photo'', data_image = w, data_html = None,
                          data_title = dict_get kvs ''title'' JNull,
                          data_description = dict_get kvs ''description'' JNull\<rparr>))"
proof -
  let ?result = "fst (get_oembed_data endpoint_map (answering response) url maxwidth maxheight)"
  note r = get_oembed_data_answered [OF assms(1,2), of endpoint_map url maxwidth maxheight]
  have 1: "?result = Inr None" if "map_of kvs ''url'' = Some v" "\<not> truthy v"
  proof -
    have "dict_get kvs ''url'' (dict_get kvs ''image'' JNull) = v"
      using that(1) by (simp add: dict_get_def)
    then have "oembed_result (JObject kvs) = Inr None"
      using oembed_result_photo_no_image [OF assms(3)] that(2) by simp
    then show ?thesis using r by (auto split: option.splits)
  qed
  have 2: "?result = Inr (Some \<lparr>data_type = ''photo'', data_image = w, data_html = None,
                          data_title = dict_get kvs ''title'' JNull,
                          data_description = dict_get kvs ''description'' JNull\<rparr>)"
    if "map_of kvs ''url'' = None" "map_of kvs ''image'' = Some w" "truthy w"
      "get_oembed_endpoint endpoint_map url \<noteq> None"
  proof -
    have i: "dict_get kvs ''url'' (dict_get kvs ''image'' JNull) = w"
      using that(1,2) by (simp add: dict_get_def)
    have "oembed_result (JObject kvs) =
        Inr (Some \<lparr>data_type = ''photo'', data_image = w, data_html = None,
                          data_title = dict_get kvs ''title'' JNull,
                          data_description = dict_get kvs ''description'' JNull\<rparr>)"
      using oembed_result_photo [OF assms(3)] that(3) unfolding i by simp
    then show ?thesis using r that(4) by (auto split: option.splits)
  qed
  show ?thesis using 1 2 by blast
qed

theorem photo_empty_url_hides_image_witness:
  "fst (get_oembed_data first_map (answering empty_url_photo_response)
          ''https://example.com/video/123'' None None) = Inr None
   \<and> fst (get_oembed_data first_map (answering image_photo_response)
          ''https://example.com/video/123'' None None) =
       Inr (Some \<lparr>data_type = ''photo'', data_image = JString ''https://example.com/cat.png'',
                   data_html = None, data_title = JNull, data_description = JNull\<rparr>)"
proof -
  let ?u = "''https://example.com/video/123''"
  let ?k1 = "[(''type'', JString ''photo''), (''url'', JString ''''),
              (''image'', JString ''https://example.com/cat.png'')]"
  let ?k2 = "[(''type'', JString ''photo''), (''image'', JString ''https://example.com/cat.png'')]"
  have ok1: "ok empty_url_photo_response" by (simp add: ok_def empty_url_photo_response_def)
  have b1: "body_json empty_url_photo_response = Some (JObject ?k1)"
    by (simp add: empty_url_photo_response_def)
  have t1: "dict_get ?k1 ''type'' (JString '''') = JString ''photo''"
    by (simp add: dict_get_def)
  have ok2: "ok image_photo_response" by (simp add: ok_def image_photo_response_def)
  have b2: "body_json image_photo_response = Some (JObject ?k2)"
    by (simp add: image_photo_response_def)
  have t2: "dict_get ?k2 ''type'' (JString '''') = JString ''photo''"
    by (simp add: dict_get_def)
  have f: "get_oembed_endpoint first_map ?u \<noteq> None"
    using first_map_finds by simp
  have a: "fst (get_oembed_data first_map (answering empty_url_photo_response) ?u None None) = Inr None"
    using photo_empty_url_hides_image [OF ok1 b1 t1, of "JString ''''" first_map ?u None None]
    by simp
  have b: "fst (get_oembed_data first_map (answering image_photo_response) ?u None None) =
       Inr (Some \<lparr>data_type = ''photo'', data_image = JString ''https://example.com/cat.png'',
                   data_html = None, data_title = JNull, data_description = JNull\<rparr>)"
    using photo_empty_url_hides_image [OF ok2 b2 t2, of "JNull" first_map ?u None None
        "JString ''https://example.com/cat.png''"] f
    by (simp add: dict_get_def)
  show ?thesis using a b by (intro conjI)
qed

section \<open>Failures of the fetch\<close>







section \<open>The request\<close>

lemma quote_plus_keys:
  "quote_plus ''url'' = ''url''" "quote_plus ''format'' = ''format''"
  "quote_plus ''json'' = ''json''" "quote_plus ''maxwidth'' = ''maxwidth''"
  "quote_plus ''maxheight'' = ''maxheight''"
  by (simp_all add: quote_plus_def quote_plus_char_def is_ascii_alnum_def)

lemma digits_safe: "quote_plus (digits n) = digits n"
proof (induction n rule: digits.induct)
  case (1 n)
  have d: "quote_plus [''0123456789'' ! k] = [''0123456789'' ! k]" if "k < 10" for k
  proof -
    from that have "k = 0 \<or> k = 1 \<or> k = 2 \<or> k = 3 \<or> k = 4 \<or> k = 5 \<or> k = 6
        \<or> k = 7 \<or> k = 8 \<or> k = 9"
      by arith
    then show ?thesis
      by (elim disjE) (simp_all add: quote_plus_def quote_plus_char_def is_ascii_alnum_def)
  qed
  have app: "quote_plus (a @ b) = quote_plus a @ quote_plus b" for a b
    by (simp add: quote_plus_def)
  show ?case
  proof (cases "n < 10")
    case True
    then show ?thesis using d [of n] by (subst (1 2) digits.simps) simp
  next
    case False
    then have "quote_plus (digits (n div 10)) = digits (n div 10)" using 1 by simp
    moreover have "quote_plus [''0123456789'' ! (n mod 10)] = [''0123456789'' ! (n mod 10)]"
      by (rule d) simp
    ultimately show ?thesis
      using False by (subst (1 2) digits.simps) (simp add: app)
  qed
qed

lemma str_int_safe: "quote_plus (str_int i) = str_int i"
proof -
  have "quote_plus (CHR ''-'' # s) = CHR ''-'' # quote_plus s" for s
    by (simp add: quote_plus_def quote_plus_char_def)
  then show ?thesis
    by (simp add: str_int_def digits_safe)
qed


lemma request_url:
  "urlencode [(''url'', PStr url), (''format'', PStr ''json''),
              (''maxwidth'', PInt w), (''maxheight'', PInt h)] =
   ''url='' @ quote_plus url @ ''&format=json&maxwidth='' @ str_int w @ ''&maxheight='' @ str_int h"
  by (simp add: urlencode_def quote_plus_keys str_int_safe)







end
